theory Spec2Isabelle
  imports Complex_Main "HOL-Library.Log_Nat"
begin

section \<open>Numbers and strings of the source\<close>

text \<open>
  The numbers of the source are IEEE 754 double-precision floats. A level index and
  every loop index is modelled as an \<open>int\<close> (the integers of the source are exact up to
  \<open>2 ^ 53\<close>), a finite double as the \<open>real\<close> it denotes. Every arithmetic operation of
  the source that can round is modelled with its rounding: the result is the double
  nearest to the exact result, ties going to the even significand. This covers the
  rope count, the node and offset of every chord, the indices of the scramble loop
  and the whole intersection test. The pin coordinates the generator produces (sine,
  cosine and noise) and the drag arithmetic of the pointer handlers are kept exact: no
  property below depends on their values. The sign of a zero is not tracked; the source
  never divides by a zero and compares numbers only with \<^verbatim>\<open><\<close>, which does not
  see the sign of a zero.
\<close>

text \<open>Rounding to the nearest integer, a tie going to the even one.\<close>

definition roundEven :: "real \<Rightarrow> int" where
  "roundEven y =
     (let f = \<lfloor>y\<rfloor>; r = y - real_of_int f in
      if r < 1 / 2 then f else if 1 / 2 < r then f + 1 else if even f then f else f + 1)"

text \<open>The binary exponent of a non-zero number: \<open>2 ^ expo x \<le> |x| < 2 ^ (expo x + 1)\<close>.\<close>

definition expo :: "real \<Rightarrow> int" where
  "expo x = (if 1 \<le> \<bar>x\<bar> then bitlen \<lfloor>\<bar>x\<bar>\<rfloor> - 1 else - bitlen (\<lceil>1 / \<bar>x\<bar>\<rceil> - 1))"

text \<open>
  \<open>fl x\<close> is \<open>x\<close> rounded to a double with unbounded exponent range above: a multiple
  of \<open>2 ^ g\<close> where \<open>g\<close> is the exponent of the last place of the 53-bit significand, and
  at least \<open>- 1074\<close>, the last place of the subnormal numbers.
\<close>

definition fl :: "real \<Rightarrow> real" where
  "fl x =
     (if x = 0 then 0
      else
        (let g = max (expo x - 52) (- 1074) in
         if 0 \<le> g
         then real_of_int (roundEven (x / real_of_int (2 ^ nat g)) * 2 ^ nat g)
         else real_of_int (roundEven (x * real_of_int (2 ^ nat (- g)))) / real_of_int (2 ^ nat (- g))))"

text \<open>
  A value of type \<^verbatim>\<open>number\<close>: a finite double, an infinity or NaN. An exact result
  whose rounding reaches \<open>2 ^ 1024\<close> in magnitude overflows to an infinity.
\<close>

datatype double = Finite real | PInf | NInf | NaN

definition toDouble :: "real \<Rightarrow> double" where
  "toDouble x =
     (let y = fl x in
      if 2 ^ 1024 \<le> y then PInf else if y \<le> - (2 ^ 1024) then NInf else Finite y)"

fun dneg :: "double \<Rightarrow> double" where
  "dneg (Finite x) = Finite (- x)"
| "dneg PInf = NInf"
| "dneg NInf = PInf"
| "dneg NaN = NaN"

text \<open>\<^verbatim>\<open>Math.abs\<close>.\<close>

fun dabs :: "double \<Rightarrow> double" where
  "dabs (Finite x) = Finite \<bar>x\<bar>"
| "dabs PInf = PInf"
| "dabs NInf = PInf"
| "dabs NaN = NaN"

text \<open>The operators \<^verbatim>\<open>+\<close>, \<^verbatim>\<open>-\<close>, \<^verbatim>\<open>*\<close> and \<^verbatim>\<open>/\<close> on numbers.\<close>

fun dadd :: "double \<Rightarrow> double \<Rightarrow> double" where
  "dadd (Finite x) (Finite y) = toDouble (x + y)"
| "dadd NaN y = NaN"
| "dadd x NaN = NaN"
| "dadd PInf NInf = NaN"
| "dadd NInf PInf = NaN"
| "dadd PInf y = PInf"
| "dadd NInf y = NInf"
| "dadd x PInf = PInf"
| "dadd x NInf = NInf"

definition dsub :: "double \<Rightarrow> double \<Rightarrow> double" where
  "dsub x y = dadd x (dneg y)"

fun dmul :: "double \<Rightarrow> double \<Rightarrow> double" where
  "dmul (Finite x) (Finite y) = toDouble (x * y)"
| "dmul NaN y = NaN"
| "dmul x NaN = NaN"
| "dmul PInf (Finite y) = (if y = 0 then NaN else if 0 < y then PInf else NInf)"
| "dmul NInf (Finite y) = (if y = 0 then NaN else if 0 < y then NInf else PInf)"
| "dmul (Finite x) PInf = (if x = 0 then NaN else if 0 < x then PInf else NInf)"
| "dmul (Finite x) NInf = (if x = 0 then NaN else if 0 < x then NInf else PInf)"
| "dmul PInf PInf = PInf"
| "dmul PInf NInf = NInf"
| "dmul NInf PInf = NInf"
| "dmul NInf NInf = PInf"

text \<open>
  Division. A finite number divided by a zero gives an infinity whose sign depends on
  the sign of the zero, or NaN for a zero dividend; the intersection test, the only
  place of the source that divides by a computed number, returns before the division
  when the divisor is below 0.001 in magnitude (\<open>ddiv_zero_unreached\<close> below), so that
  case is given the value NaN here and is never used. An infinity divided by a zero
  keeps its sign for a positive zero.
\<close>

fun ddiv :: "double \<Rightarrow> double \<Rightarrow> double" where
  "ddiv (Finite x) (Finite y) = (if y = 0 then NaN else toDouble (x / y))"
| "ddiv NaN y = NaN"
| "ddiv x NaN = NaN"
| "ddiv (Finite x) PInf = Finite 0"
| "ddiv (Finite x) NInf = Finite 0"
| "ddiv PInf (Finite y) = (if 0 \<le> y then PInf else NInf)"
| "ddiv NInf (Finite y) = (if 0 \<le> y then NInf else PInf)"
| "ddiv PInf PInf = NaN"
| "ddiv PInf NInf = NaN"
| "ddiv NInf PInf = NaN"
| "ddiv NInf NInf = NaN"

text \<open>The comparison \<^verbatim>\<open><\<close>: false whenever an operand is NaN.\<close>

fun dless :: "double \<Rightarrow> double \<Rightarrow> bool" where
  "dless (Finite x) (Finite y) = (x < y)"
| "dless NaN y = False"
| "dless x NaN = False"
| "dless PInf y = False"
| "dless x NInf = False"
| "dless NInf y = True"
| "dless x PInf = True"

text \<open>
  The template literals of the source (\<^verbatim>\<open>`p${i}`\<close>, \<^verbatim>\<open>`r${ropes.length}`\<close>) print
  an integer in decimal.
\<close>

definition digitChar :: "nat \<Rightarrow> char" where
  "digitChar n = ''0123456789'' ! n"

fun digits :: "nat \<Rightarrow> string" where
  "digits n = (if n < 10 then [digitChar n] else digits (n div 10) @ [digitChar (n mod 10)])"

declare digits.simps [simp del]

definition numStr :: "int \<Rightarrow> string" where
  "numStr i = (if i < 0 then CHR ''-'' # digits (nat (- i)) else digits (nat i))"

text \<open>
  The remainder operator \<^verbatim>\<open>%\<close> truncates towards zero: the result has the sign of the
  dividend. (For a zero divisor the source yields NaN; the generator reaches the operator
  with a zero divisor in no run, see \<open>extraRopes_zero\<close> below.)
\<close>

definition jsRem :: "int \<Rightarrow> int \<Rightarrow> int" where
  "jsRem a b = sgn a * (\<bar>a\<bar> mod \<bar>b\<bar>)"

section \<open>Data model (the interfaces \<^verbatim>\<open>Point\<close>, \<^verbatim>\<open>Rope\<close>, \<^verbatim>\<open>LevelData\<close>)\<close>

record Point =
  id_p :: string
  x_p :: real
  y_p :: real
  z_p :: real
  color_p :: string

record Rope =
  id_r :: string
  p1_r :: string
  p2_r :: string
  color_r :: string

record LevelData =
  points :: "Point list"
  ropes :: "Rope list"

datatype error = TypeError

section \<open>Level generator (\<^verbatim>\<open>generateLevel\<close>)\<close>

definition COLORS :: "string list" where
  "COLORS = [''#FF3D71'', ''#3366FF'', ''#00D68F'', ''#FFAA00'',
             ''#D948FF'', ''#00E096'', ''#FF5722'', ''#00BCD4'']"

text \<open>
  The difficulty curve: the first three constants of \<^verbatim>\<open>generateLevel\<close>. The
  node count and the scramble count are integers and exact; the density is computed in
  doubles, from the doubles nearest to 1.2 and 0.8.
\<close>

definition pointCount :: "int \<Rightarrow> int" where
  "pointCount lvl = min (5 + \<lfloor>real_of_int lvl / 10\<rfloor>) 15"

definition connectionDensity :: "int \<Rightarrow> real" where
  "connectionDensity lvl = fl (fl 1.2 + fl (fl (real_of_int lvl / 100) * fl 0.8))"

definition scrambleCount :: "int \<Rightarrow> int" where
  "scrambleCount lvl = 20 + lvl * 2"

definition extraRopes :: "int \<Rightarrow> int" where
  "extraRopes lvl =
     \<lfloor>fl (real_of_int (pointCount lvl) * connectionDensity lvl)\<rfloor> - pointCount lvl"

text \<open>
  \<^verbatim>\<open>Math.random()\<close> is an explicit source of draws: \<open>rnd n\<close> is the value of the
  \<open>n\<close>-th call (counted from 0) made by one run of the generator. The contract of
  \<^verbatim>\<open>Math.random\<close> is a number, that is a double, in \<open>[0, 1)\<close>.
\<close>

definition validRandom :: "(nat \<Rightarrow> real) \<Rightarrow> bool" where
  "validRandom rnd = (\<forall>n. fl (rnd n) = rnd n \<and> 0 \<le> rnd n \<and> rnd n < 1)"

text \<open>Step 1: the pins on a circle of radius 4.5 (coordinates kept exact).\<close>

definition mkPoint :: "int \<Rightarrow> nat \<Rightarrow> Point" where
  "mkPoint pc i =
     (let radius = 4.5;
          angle = (real i / real_of_int pc) * pi * 2
      in \<lparr>id_p = ''p'' @ numStr (int i),
          x_p = cos angle * radius,
          y_p = sin angle * radius,
          z_p = 0,
          color_p = COLORS ! (i mod length COLORS)\<rparr>)"

definition circlePoints :: "int \<Rightarrow> Point list" where
  "circlePoints pc = map (mkPoint pc) [0..<nat pc]"

text \<open>
  Step 2: \<^verbatim>\<open>addRope\<close>. The state of the closure is the set \<^verbatim>\<open>connections\<close> and
  the array \<^verbatim>\<open>ropes\<close>; sorting the two-element array \<^verbatim>\<open>[i, j]\<close> numerically puts the
  smaller index first.
\<close>

definition ropeKey :: "int \<Rightarrow> int \<Rightarrow> string" where
  "ropeKey i j = numStr (min i j) @ ''-'' @ numStr (max i j)"

definition addRope :: "int \<Rightarrow> int \<Rightarrow> string set \<times> Rope list \<Rightarrow> string set \<times> Rope list" where
  "addRope i j st =
     (let connections = fst st; rs = snd st; key = ropeKey i j in
      if i \<noteq> j \<and> key \<notin> connections
      then (insert key connections,
            rs @ [\<lparr>id_r = ''r'' @ numStr (int (length rs)),
                   p1_r = ''p'' @ numStr i,
                   p2_r = ''p'' @ numStr j,
                   color_r = ''#ffffff''\<rparr>])
      else st)"

definition ringRopes :: "int \<Rightarrow> string set \<times> Rope list" where
  "ringRopes pc =
     fold (\<lambda>i. addRope (int i) (jsRem (int i + 1) pc)) [0..<nat pc] ({}, [])"

text \<open>
  The extra ropes: iteration \<open>k\<close> makes the calls \<open>2 * k\<close> and \<open>2 * k + 1\<close> of the
  random source, the first for the node, the second for the offset. The products and
  the quotient \<^verbatim>\<open>pointCount / 3\<close> are rounded to doubles before \<^verbatim>\<open>Math.floor\<close>.
\<close>

definition chordNode :: "(nat \<Rightarrow> real) \<Rightarrow> int \<Rightarrow> nat \<Rightarrow> int" where
  "chordNode rnd pc k = \<lfloor>fl (rnd (2 * k) * real_of_int pc)\<rfloor>"

definition chordOffset :: "(nat \<Rightarrow> real) \<Rightarrow> int \<Rightarrow> nat \<Rightarrow> int" where
  "chordOffset rnd pc k = 2 + \<lfloor>fl (rnd (2 * k + 1) * fl (real_of_int pc / 3))\<rfloor>"

definition chordStep ::
  "(nat \<Rightarrow> real) \<Rightarrow> int \<Rightarrow> nat \<Rightarrow> string set \<times> Rope list \<Rightarrow> string set \<times> Rope list" where
  "chordStep rnd pc k st =
     (let i = chordNode rnd pc k;
          offset = chordOffset rnd pc k
      in addRope i (jsRem (i + offset) pc) st)"

definition allRopes :: "(nat \<Rightarrow> real) \<Rightarrow> int \<Rightarrow> string set \<times> Rope list" where
  "allRopes rnd lvl =
     fold (chordStep rnd (pointCount lvl)) [0..<nat (extraRopes lvl)]
       (ringRopes (pointCount lvl))"

text \<open>
  Step 3: one swap of the scramble loop. \<open>base\<close> is the number of draws made before the
  loop. Reading \<^verbatim>\<open>.x\<close> of an array slot that does not exist throws a
  \<^verbatim>\<open>TypeError\<close>; the four assignments are those of the source, in its order.
\<close>

definition scrambleStep ::
  "(nat \<Rightarrow> real) \<Rightarrow> int \<Rightarrow> nat \<Rightarrow> nat \<Rightarrow> Point list \<Rightarrow> error + Point list" where
  "scrambleStep rnd pc base s ps =
     (let idxA = \<lfloor>fl (rnd (base + 2 * s) * real_of_int pc)\<rfloor>;
          idxB = \<lfloor>fl (rnd (base + 2 * s + 1) * real_of_int pc)\<rfloor>
      in if 0 \<le> idxA \<and> idxA < int (length ps) \<and> 0 \<le> idxB \<and> idxB < int (length ps)
         then
           (let a = nat idxA; b = nat idxB;
                tempX = x_p (ps ! a);
                tempY = y_p (ps ! a);
                ps1 = ps[a := (ps ! a)\<lparr>x_p := x_p (ps ! b)\<rparr>];
                ps2 = ps1[a := (ps1 ! a)\<lparr>y_p := y_p (ps1 ! b)\<rparr>];
                ps3 = ps2[b := (ps2 ! b)\<lparr>x_p := tempX\<rparr>];
                ps4 = ps3[b := (ps3 ! b)\<lparr>y_p := tempY\<rparr>]
            in Inr ps4)
         else Inl TypeError)"

definition scramble ::
  "(nat \<Rightarrow> real) \<Rightarrow> int \<Rightarrow> nat \<Rightarrow> nat \<Rightarrow> Point list \<Rightarrow> error + Point list" where
  "scramble rnd pc base n ps =
     fold (\<lambda>s r. case r of Inl e \<Rightarrow> Inl e | Inr qs \<Rightarrow> scrambleStep rnd pc base s qs)
       [0..<n] (Inr ps)"

text \<open>Step 4: the noise, two draws for each pin in array order (coordinates kept exact).\<close>

definition jitter :: "(nat \<Rightarrow> real) \<Rightarrow> nat \<Rightarrow> Point list \<Rightarrow> Point list" where
  "jitter rnd base ps =
     map (\<lambda>(k, p). p\<lparr>x_p := x_p p + (rnd (base + 2 * k) - 0.5) * 2,
                      y_p := y_p p + (rnd (base + 2 * k + 1) - 0.5) * 2\<rparr>)
       (enumerate 0 ps)"

definition generateLevel :: "int \<Rightarrow> (nat \<Rightarrow> real) \<Rightarrow> error + LevelData" where
  "generateLevel lvl rnd =
     (let pc = pointCount lvl;
          base = 2 * nat (extraRopes lvl);
          n = nat (scrambleCount lvl)
      in case scramble rnd pc base n (circlePoints pc) of
           Inl e \<Rightarrow> Inl e
         | Inr ps \<Rightarrow>
             Inr \<lparr>points = jitter rnd (base + 2 * n) ps,
                  ropes = snd (allRopes rnd lvl)\<rparr>)"

section \<open>Tangle detection: the segment intersection test\<close>

text \<open>
  The scene stores every pin position as a three-component vector of finite numbers.
\<close>

record Vector3 =
  vx :: real
  vy :: real
  vz :: real

text \<open>
  \<^verbatim>\<open>doIntersect\<close> of \<^verbatim>\<open>GameScene.tsx\<close>: the determinant guard, the two
  parameters and the tolerance test, in the order of the source and each operation in
  double arithmetic. The literals \<^verbatim>\<open>0.001\<close> and \<^verbatim>\<open>0.05\<close> denote the doubles
  nearest to them, and \<^verbatim>\<open>1 - eps\<close> is a rounded subtraction.
\<close>

definition doIntersect :: "Vector3 \<Rightarrow> Vector3 \<Rightarrow> Vector3 \<Rightarrow> Vector3 \<Rightarrow> bool" where
  "doIntersect a b c d =
     (let ax = Finite (vx a); ay = Finite (vy a); bx = Finite (vx b); by = Finite (vy b);
          cx = Finite (vx c); cy = Finite (vy c); dx = Finite (vx d); dy = Finite (vy d);
          det = dsub (dmul (dsub bx ax) (dsub dy cy)) (dmul (dsub by ay) (dsub dx cx)) in
      if dless (dabs det) (toDouble 0.001) then False
      else
        (let lambda = ddiv (dadd (dmul (dsub dy cy) (dsub dx ax))
                                 (dmul (dsub cx dx) (dsub dy ay))) det;
             gamma = ddiv (dadd (dmul (dsub ay by) (dsub dx ax))
                                (dmul (dsub bx ax) (dsub dy ay))) det;
             eps = toDouble 0.05
         in (dless eps lambda \<and> dless lambda (dsub (Finite 1) eps))
            \<and> (dless eps gamma \<and> dless gamma (dsub (Finite 1) eps))))"

section \<open>The scene state and the evaluation (\<^verbatim>\<open>checkIntersections\<close>)\<close>

text \<open>
  The part of the mutable scene state that the puzzle logic reads and writes. A rope
  entry keeps its two pin ids and its material; the material takes one of two colours,
  \<^verbatim>\<open>0xFF3D71\<close> (tangled) and \<^verbatim>\<open>0x00FFBB\<close> (clear), kept here as the flag
  \<open>tangled\<close>. The rope map is a JavaScript \<^verbatim>\<open>Map\<close>: an association list in
  insertion order; the pin map is only read by key. The meshes, the camera, the pin
  scale, the confetti and the callbacks to the host (\<^verbatim>\<open>onMove\<close>,
  \<^verbatim>\<open>onComplete\<close>) are presentation and are left out.
\<close>

record RopeData =
  p1 :: string
  p2 :: string
  tangled :: bool

record SceneState =
  selectedPointId :: "string option"
  dragOffset :: Vector3
  pins :: "string \<Rightarrow> Vector3 option"
  ropes_s :: "(string \<times> RopeData) list"
  levelData :: "LevelData option"
  isComplete :: bool
  initialized :: bool

text \<open>\<^verbatim>\<open>Map.prototype.set\<close>: replace the value of a present key in place, else append.\<close>

fun mapSet :: "string \<Rightarrow> 'v \<Rightarrow> (string \<times> 'v) list \<Rightarrow> (string \<times> 'v) list" where
  "mapSet k v [] = [(k, v)]"
| "mapSet k v ((k', v') # al) = (if k' = k then (k, v) # al else (k', v') # mapSet k v al)"

definition sharesEndpoint :: "RopeData \<Rightarrow> RopeData \<Rightarrow> bool" where
  "sharesEndpoint r1 r2 = (p1 r1 = p1 r2 \<or> p1 r1 = p2 r2 \<or> p2 r1 = p1 r2 \<or> p2 r1 = p2 r2)"

text \<open>
  The body of the inner loop for the keys \<open>ki\<close>, \<open>kj\<close>: each \<^verbatim>\<open>continue\<close> of the
  source leaves the set \<^verbatim>\<open>tangledIds\<close> as it is.
\<close>

definition pairStep :: "SceneState \<Rightarrow> string \<Rightarrow> string \<Rightarrow> string set \<Rightarrow> string set" where
  "pairStep s ki kj tangledIds =
     (case map_of (ropes_s s) ki of None \<Rightarrow> tangledIds | Some r1 \<Rightarrow>
      case map_of (ropes_s s) kj of None \<Rightarrow> tangledIds | Some r2 \<Rightarrow>
      if sharesEndpoint r1 r2 then tangledIds
      else
        (case pins s (p1 r1) of None \<Rightarrow> tangledIds | Some pin1 \<Rightarrow>
         case pins s (p2 r1) of None \<Rightarrow> tangledIds | Some pin2 \<Rightarrow>
         case pins s (p1 r2) of None \<Rightarrow> tangledIds | Some pin3 \<Rightarrow>
         case pins s (p2 r2) of None \<Rightarrow> tangledIds | Some pin4 \<Rightarrow>
         if doIntersect pin1 pin2 pin3 pin4
         then insert kj (insert ki tangledIds)
         else tangledIds))"

fun innerLoop :: "SceneState \<Rightarrow> string \<Rightarrow> string list \<Rightarrow> string set \<Rightarrow> string set" where
  "innerLoop s ki [] tangledIds = tangledIds"
| "innerLoop s ki (kj # ks) tangledIds = innerLoop s ki ks (pairStep s ki kj tangledIds)"

fun outerLoop :: "SceneState \<Rightarrow> string list \<Rightarrow> string set \<Rightarrow> string set" where
  "outerLoop s [] tangledIds = tangledIds"
| "outerLoop s (ki # ks) tangledIds = outerLoop s ks (innerLoop s ki ks tangledIds)"

definition tangledIdsOf :: "SceneState \<Rightarrow> string set" where
  "tangledIdsOf s = outerLoop s (map fst (ropes_s s)) {}"

text \<open>
  \<^verbatim>\<open>updateRopeMesh\<close>, without the geometry: the colour is set on the material the
  entry already holds, and the entry is written again with the pin ids of the level
  data's rope of that id, when there is one.
\<close>

definition updateRopeMesh :: "string \<Rightarrow> bool \<Rightarrow> SceneState \<Rightarrow> SceneState" where
  "updateRopeMesh rid isTangled s =
     (let rs1 = (case map_of (ropes_s s) rid of
                   None \<Rightarrow> ropes_s s
                 | Some ropeData \<Rightarrow> mapSet rid (ropeData\<lparr>tangled := isTangled\<rparr>) (ropes_s s));
          rData = (case levelData s of
                     None \<Rightarrow> None
                   | Some ld \<Rightarrow> find (\<lambda>r. id_r r = rid) (ropes ld))
      in case rData of
           None \<Rightarrow> s\<lparr>ropes_s := rs1\<rparr>
         | Some r \<Rightarrow>
             s\<lparr>ropes_s := mapSet rid \<lparr>p1 = p1_r r, p2 = p2_r r, tangled = isTangled\<rparr> rs1\<rparr>)"

definition refreshRope :: "string set \<Rightarrow> string \<Rightarrow> SceneState \<Rightarrow> SceneState" where
  "refreshRope tangledIds rid s =
     (case map_of (ropes_s s) rid of None \<Rightarrow> s | Some r \<Rightarrow>
      case pins s (p1 r) of None \<Rightarrow> s | Some pinA \<Rightarrow>
      case pins s (p2 r) of None \<Rightarrow> s | Some pinB \<Rightarrow>
        updateRopeMesh rid (rid \<in> tangledIds) s)"

definition checkIntersections :: "SceneState \<Rightarrow> SceneState \<times> bool" where
  "checkIntersections s =
     (let tangledIds = tangledIdsOf s;
          ropeKeys = map fst (ropes_s s)
      in (fold (refreshRope tangledIds) ropeKeys s, tangledIds = {}))"

definition checkWinCondition :: "SceneState \<Rightarrow> SceneState" where
  "checkWinCondition s =
     (if \<not> initialized s \<or> isComplete s then s
      else
        (let s' = fst (checkIntersections s);
             isSolved = snd (checkIntersections s)
         in if length (ropes_s s') > 0 \<and> isSolved then s'\<lparr>isComplete := True\<rparr> else s'))"

section \<open>Level start and pointer events\<close>

text \<open>The value the component's state reference starts with.\<close>

definition emptyState :: SceneState where
  "emptyState =
     \<lparr>selectedPointId = None, dragOffset = \<lparr>vx = 0, vy = 0, vz = 0\<rparr>,
      pins = (\<lambda>k. None), ropes_s = [], levelData = None,
      isComplete = False, initialized = False\<rparr>"

text \<open>
  The effect that starts a level, from a level already generated: both maps are cleared,
  one pin is stored for each point, one rope for each rope of the level whose two pins
  exist (with the tangled colour), and the first evaluation is run.
\<close>

definition addPin :: "Point \<Rightarrow> SceneState \<Rightarrow> SceneState" where
  "addPin p s = s\<lparr>pins := (pins s)(id_p p \<mapsto> \<lparr>vx = x_p p, vy = y_p p, vz = z_p p\<rparr>)\<rparr>"

definition addRopeMesh :: "Rope \<Rightarrow> SceneState \<Rightarrow> SceneState" where
  "addRopeMesh r s =
     (case pins s (p1_r r) of None \<Rightarrow> s | Some pinA \<Rightarrow>
      case pins s (p2_r r) of None \<Rightarrow> s | Some pinB \<Rightarrow>
        s\<lparr>ropes_s := mapSet (id_r r) \<lparr>p1 = p1_r r, p2 = p2_r r, tangled = True\<rparr> (ropes_s s)\<rparr>)"

definition startLevel :: "LevelData \<Rightarrow> SceneState \<Rightarrow> SceneState" where
  "startLevel ld s0 =
     (let s1 = s0\<lparr>pins := (\<lambda>k. None), ropes_s := [], initialized := False,
                   isComplete := False, levelData := Some ld\<rparr>;
          s2 = fold addPin (points ld) s1;
          s3 = fold addRopeMesh (ropes ld) s2;
          s4 = s3\<lparr>initialized := True\<rparr>
      in fst (checkIntersections s4))"

text \<open>
  A pointer event carries what the ray caster of the rendering library reports: for
  \<^verbatim>\<open>pointerdown\<close> the id of the pin group that is hit first (if any) and the point
  where the ray meets the drag plane (if any); for \<^verbatim>\<open>pointermove\<close> the point where
  the ray meets the drag plane (if any).
\<close>

datatype event =
    PointerDown "string option" "Vector3 option"
  | PointerMove "Vector3 option"
  | PointerUp

text \<open>A string is falsy when it is absent or empty.\<close>

definition falsy :: "string option \<Rightarrow> bool" where
  "falsy v = (v = None \<or> v = Some [])"

text \<open>\<^verbatim>\<open>THREE.MathUtils.clamp(value, min, max)\<close> is \<^verbatim>\<open>Math.max(min, Math.min(max, value))\<close>.\<close>

definition clamp :: "real \<Rightarrow> real \<Rightarrow> real \<Rightarrow> real" where
  "clamp v lo hi = max lo (min hi v)"

definition onPointerDown :: "string option \<Rightarrow> Vector3 option \<Rightarrow> SceneState \<Rightarrow> SceneState" where
  "onPointerDown target hit s =
     (if isComplete s then s
      else
        (case target of None \<Rightarrow> s | Some tid \<Rightarrow>
           (let s1 = s\<lparr>selectedPointId := Some tid\<rparr> in
            case hit of None \<Rightarrow> s1 | Some di \<Rightarrow>
            case pins s tid of None \<Rightarrow> s1 | Some pos \<Rightarrow>
              s1\<lparr>dragOffset := \<lparr>vx = vx di - vx pos, vy = vy di - vy pos,
                                 vz = vz di - vz pos\<rparr>\<rparr>)))"

definition onPointerMove :: "Vector3 option \<Rightarrow> SceneState \<Rightarrow> SceneState" where
  "onPointerMove hit s =
     (if falsy (selectedPointId s) \<or> isComplete s then s
      else
        (case hit of None \<Rightarrow> s | Some di \<Rightarrow>
         case pins s (the (selectedPointId s)) of None \<Rightarrow> s | Some pin \<Rightarrow>
           (let nextPos = \<lparr>vx = clamp (vx di - vx (dragOffset s)) (- 9) 9,
                           vy = clamp (vy di - vy (dragOffset s)) (- 14) 14,
                           vz = vz di - vz (dragOffset s)\<rparr>
            in fst (checkIntersections
                     (s\<lparr>pins := (pins s)(the (selectedPointId s) \<mapsto> nextPos)\<rparr>)))))"

definition onPointerUp :: "SceneState \<Rightarrow> SceneState" where
  "onPointerUp s =
     (if falsy (selectedPointId s) then s
      else checkWinCondition (s\<lparr>selectedPointId := None\<rparr>))"

fun handle :: "event \<Rightarrow> SceneState \<Rightarrow> SceneState" where
  "handle (PointerDown target hit) s = onPointerDown target hit s"
| "handle (PointerMove hit) s = onPointerMove hit s"
| "handle PointerUp s = onPointerUp s"

definition run :: "event list \<Rightarrow> SceneState \<Rightarrow> SceneState" where
  "run es s = fold handle es s"


section \<open>Notions used to state and prove the properties\<close>

text \<open>The id the generator gives to the pin of index \<open>i\<close>.\<close>

definition pinId :: "int \<Rightarrow> string" where
  "pinId i = ''p'' @ numStr i"

text \<open>Reading a decimal string back, to show that printing is injective.\<close>

definition digitVal :: "char \<Rightarrow> nat" where
  "digitVal c = of_char c - 48"

definition strVal :: "string \<Rightarrow> nat" where
  "strVal s = foldl (\<lambda>a c. 10 * a + digitVal c) 0 s"

text \<open>
  The index pairs the generator offers to \<^verbatim>\<open>addRope\<close> when the pin count \<open>N\<close> is
  positive: a ring edge (offset 1) or a chord whose offset is at least 2 and below
  \<open>2 + N / 3\<close>.
\<close>

definition okPair :: "int \<Rightarrow> int \<Rightarrow> int \<Rightarrow> bool" where
  "okPair N i j =
     (0 \<le> i \<and> i < N \<and>
      (\<exists>off. (off = 1 \<or> (2 \<le> off \<and> real_of_int off < 2 + real_of_int N / 3))
             \<and> j = (i + off) mod N))"

text \<open>
  The invariant of the closure state of \<^verbatim>\<open>addRope\<close>: every rope joins two different
  pins of an admitted index pair whose key is in the set, and no unordered pair of pin
  ids occurs twice.
\<close>

definition ropeInv :: "(int \<Rightarrow> int \<Rightarrow> bool) \<Rightarrow> string set \<times> Rope list \<Rightarrow> bool" where
  "ropeInv P st =
     ((\<forall>r \<in> set (snd st). \<exists>i j. P i j \<and> i \<noteq> j \<and> p1_r r = pinId i \<and> p2_r r = pinId j
          \<and> ropeKey i j \<in> fst st)
      \<and> distinct (map (\<lambda>r. {p1_r r, p2_r r}) (snd st)))"

text \<open>The exponent of the last place of the significand that \<open>fl\<close> rounds to.\<close>

definition gexp :: "real \<Rightarrow> int" where
  "gexp x = max (expo x - 52) (- 1074)"

text \<open>
  The determinant and the two parameters of the intersection test as the test computes
  them, in doubles.
\<close>

definition detD :: "Vector3 \<Rightarrow> Vector3 \<Rightarrow> Vector3 \<Rightarrow> Vector3 \<Rightarrow> double" where
  "detD a b c d =
     dsub (dmul (dsub (Finite (vx b)) (Finite (vx a))) (dsub (Finite (vy d)) (Finite (vy c))))
          (dmul (dsub (Finite (vy b)) (Finite (vy a))) (dsub (Finite (vx d)) (Finite (vx c))))"

definition lambdaD :: "Vector3 \<Rightarrow> Vector3 \<Rightarrow> Vector3 \<Rightarrow> Vector3 \<Rightarrow> double" where
  "lambdaD a b c d =
     ddiv (dadd (dmul (dsub (Finite (vy d)) (Finite (vy c))) (dsub (Finite (vx d)) (Finite (vx a))))
                (dmul (dsub (Finite (vx c)) (Finite (vx d))) (dsub (Finite (vy d)) (Finite (vy a)))))
          (detD a b c d)"

definition gammaD :: "Vector3 \<Rightarrow> Vector3 \<Rightarrow> Vector3 \<Rightarrow> Vector3 \<Rightarrow> double" where
  "gammaD a b c d =
     ddiv (dadd (dmul (dsub (Finite (vy a)) (Finite (vy b))) (dsub (Finite (vx d)) (Finite (vx a))))
                (dmul (dsub (Finite (vx b)) (Finite (vx a))) (dsub (Finite (vy d)) (Finite (vy a)))))
          (detD a b c d)"

text \<open>
  The same three quantities in exact arithmetic: the determinant of the claim about the
  intersection test, and the parameters \<open>lambda\<close> (along the first segment, from \<open>a\<close>)
  and \<open>gamma\<close> (along the second, from \<open>d\<close>) that solve the linear system of the two
  lines.
\<close>

definition det4 :: "Vector3 \<Rightarrow> Vector3 \<Rightarrow> Vector3 \<Rightarrow> Vector3 \<Rightarrow> real" where
  "det4 a b c d = (vx b - vx a) * (vy d - vy c) - (vy b - vy a) * (vx d - vx c)"

definition numL4 :: "Vector3 \<Rightarrow> Vector3 \<Rightarrow> Vector3 \<Rightarrow> Vector3 \<Rightarrow> real" where
  "numL4 a b c d = (vy d - vy c) * (vx d - vx a) + (vx c - vx d) * (vy d - vy a)"

definition numG4 :: "Vector3 \<Rightarrow> Vector3 \<Rightarrow> Vector3 \<Rightarrow> Vector3 \<Rightarrow> real" where
  "numG4 a b c d = (vy a - vy b) * (vx d - vx a) + (vx b - vx a) * (vy d - vy a)"

definition lambda4 :: "Vector3 \<Rightarrow> Vector3 \<Rightarrow> Vector3 \<Rightarrow> Vector3 \<Rightarrow> real" where
  "lambda4 a b c d = numL4 a b c d / det4 a b c d"

definition gamma4 :: "Vector3 \<Rightarrow> Vector3 \<Rightarrow> Vector3 \<Rightarrow> Vector3 \<Rightarrow> real" where
  "gamma4 a b c d = numG4 a b c d / det4 a b c d"

definition solves ::
  "Vector3 \<Rightarrow> Vector3 \<Rightarrow> Vector3 \<Rightarrow> Vector3 \<Rightarrow> real \<Rightarrow> real \<Rightarrow> bool" where
  "solves a b c d lam gam =
     (vx a + lam * (vx b - vx a) = vx d + gam * (vx c - vx d)
      \<and> vy a + lam * (vy b - vy a) = vy d + gam * (vy c - vy d))"

text \<open>
  The play field: \<^verbatim>\<open>onPointerMove\<close> clamps a dragged pin to \<open>|x| \<le> 9\<close> and
  \<open>|y| \<le> 14\<close>, and the generator places every pin within 5.5 of the origin.
\<close>

definition inBox :: "Vector3 \<Rightarrow> bool" where
  "inBox p = (\<bar>vx p\<bar> \<le> 9 \<and> \<bar>vy p\<bar> \<le> 14)"

text \<open>
  A configuration is clear of the thresholds when the exact determinant is at least
  \<open>10 ^ - 11\<close> away from 0.001 in magnitude and, unless it is below, both exact
  parameters are at least \<open>10 ^ - 8\<close> away from 0.05 and from 0.95.
\<close>

definition clearOf :: "real \<Rightarrow> bool" where
  "clearOf t = (1 / 10 ^ 8 \<le> \<bar>t - 0.05\<bar> \<and> 1 / 10 ^ 8 \<le> \<bar>t - 0.95\<bar>)"

definition clearOfThresholds :: "Vector3 \<Rightarrow> Vector3 \<Rightarrow> Vector3 \<Rightarrow> Vector3 \<Rightarrow> bool" where
  "clearOfThresholds a b c d =
     (\<bar>det4 a b c d\<bar> \<le> 0.001 - 1 / 10 ^ 11
      \<or> (0.001 + 1 / 10 ^ 11 \<le> \<bar>det4 a b c d\<bar>
          \<and> clearOf (lambda4 a b c d) \<and> clearOf (gamma4 a b c d)))"

text \<open>
  The value that two rounded differences, two rounded products and a rounded sum give
  when nothing overflows: the shape of the determinant and of both numerators.
\<close>

definition crossF ::
  "real \<Rightarrow> real \<Rightarrow> real \<Rightarrow> real \<Rightarrow> real \<Rightarrow> real \<Rightarrow> real \<Rightarrow> real \<Rightarrow> real" where
  "crossF p q r s t u v w = fl (fl (fl (p - q) * fl (r - s)) + fl (fl (t - u) * fl (v - w)))"

definition detF :: "Vector3 \<Rightarrow> Vector3 \<Rightarrow> Vector3 \<Rightarrow> Vector3 \<Rightarrow> real" where
  "detF a b c d = crossF (vx b) (vx a) (vy d) (vy c) (vy a) (vy b) (vx d) (vx c)"

definition numLF :: "Vector3 \<Rightarrow> Vector3 \<Rightarrow> Vector3 \<Rightarrow> Vector3 \<Rightarrow> real" where
  "numLF a b c d = crossF (vy d) (vy c) (vx d) (vx a) (vx c) (vx d) (vy d) (vy a)"

definition numGF :: "Vector3 \<Rightarrow> Vector3 \<Rightarrow> Vector3 \<Rightarrow> Vector3 \<Rightarrow> real" where
  "numGF a b c d = crossF (vy a) (vy b) (vx d) (vx a) (vx b) (vx a) (vy d) (vy a)"


text \<open>
  The pair of ropes \<open>ki\<close>, \<open>kj\<close> is a crossing of the scene: both ropes and their four
  pins exist, the ropes share no pin and the intersection test on the pin positions
  succeeds.
\<close>

definition crosses :: "SceneState \<Rightarrow> string \<Rightarrow> string \<Rightarrow> bool" where
  "crosses s ki kj =
     (\<exists>r1 r2 a b c d.
        map_of (ropes_s s) ki = Some r1 \<and> map_of (ropes_s s) kj = Some r2
        \<and> \<not> sharesEndpoint r1 r2
        \<and> pins s (p1 r1) = Some a \<and> pins s (p2 r1) = Some b
        \<and> pins s (p1 r2) = Some c \<and> pins s (p2 r2) = Some d
        \<and> doIntersect a b c d)"

text \<open>
  Every rope of the scene has its two pins. The level start stores only such ropes, and
  no pin is ever removed.
\<close>

definition pinsPresent :: "SceneState \<Rightarrow> bool" where
  "pinsPresent s =
     (\<forall>kr \<in> set (ropes_s s). pins s (p1 (snd kr)) \<noteq> None \<and> pins s (p2 (snd kr)) \<noteq> None)"

subsection \<open>Concrete inputs\<close>

text \<open>A random source for concrete runs: the draws 0, 1/8, ..., 7/8, repeated.\<close>

definition sampleRandom :: "nat \<Rightarrow> real" where
  "sampleRandom n = real (n mod 8) / 8"

definition vec :: "real \<Rightarrow> real \<Rightarrow> Vector3" where
  "vec u v = \<lparr>vx = u, vy = v, vz = 0\<rparr>"

text \<open>
  A hand-made level: the corners of a square, its two diagonals and one side. The
  diagonals cross; the side shares a pin with each diagonal.
\<close>

definition squareLevel :: LevelData where
  "squareLevel =
     \<lparr>points = [\<lparr>id_p = ''p0'', x_p = 0, y_p = 0, z_p = 0, color_p = ''#FF3D71''\<rparr>,
                \<lparr>id_p = ''p1'', x_p = 4, y_p = 0, z_p = 0, color_p = ''#3366FF''\<rparr>,
                \<lparr>id_p = ''p2'', x_p = 4, y_p = 4, z_p = 0, color_p = ''#00D68F''\<rparr>,
                \<lparr>id_p = ''p3'', x_p = 0, y_p = 4, z_p = 0, color_p = ''#FFAA00''\<rparr>],
      ropes = [\<lparr>id_r = ''r0'', p1_r = ''p0'', p2_r = ''p2'', color_r = ''#ffffff''\<rparr>,
               \<lparr>id_r = ''r1'', p1_r = ''p1'', p2_r = ''p3'', color_r = ''#ffffff''\<rparr>,
               \<lparr>id_r = ''r2'', p1_r = ''p0'', p2_r = ''p1'', color_r = ''#ffffff''\<rparr>]\<rparr>"

definition squareScene :: SceneState where
  "squareScene = startLevel squareLevel emptyState"

text \<open>The player grabs pin \<open>p2\<close> and drags it to \<open>(1, 1)\<close>, which removes the crossing.\<close>

definition draggedScene :: SceneState where
  "draggedScene =
     run [PointerDown (Some ''p2'') (Some (vec 4 4)), PointerMove (Some (vec 1 1))] squareScene"

text \<open>Releasing the pin there completes the level.\<close>

definition solvedScene :: SceneState where
  "solvedScene = run [PointerUp] draggedScene"

text \<open>
  Four pins of the play field whose second parameter is at the upper threshold: the
  first coordinate of \<open>nearA\<close> is the double that the literal \<^verbatim>\<open>1.6\<close> denotes.
\<close>

definition nearA :: Vector3 where
  "nearA = vec (fl 1.6) 2"

definition nearB :: Vector3 where
  "nearB = vec 0 (- 4)"

definition nearC :: Vector3 where
  "nearC = vec 1 (- 1)"

definition nearD :: Vector3 where
  "nearD = vec (- 3) (- 1)"

section \<open>Facts about rounding\<close>

lemmas fl_eval = fl_def expo_def roundEven_def bitlen_def compute_floorlog Let_def

lemmas double_eval = toDouble_def dsub_def fl_eval

subsection \<open>Rounding to an integer\<close>

lemma roundEven_cases:
  "roundEven y = \<lfloor>y\<rfloor> \<or> roundEven y = \<lfloor>y\<rfloor> + 1"
  by (simp add: roundEven_def Let_def)

lemma roundEven_lower:
  "y - real_of_int \<lfloor>y\<rfloor> < 1 / 2 \<Longrightarrow> roundEven y = \<lfloor>y\<rfloor>"
  by (simp add: roundEven_def Let_def)

lemma roundEven_upper:
  "1 / 2 < y - real_of_int \<lfloor>y\<rfloor> \<Longrightarrow> roundEven y = \<lfloor>y\<rfloor> + 1"
  by (simp add: roundEven_def Let_def)

lemma roundEven_of_int [simp]: "roundEven (real_of_int n) = n"
  by (simp add: roundEven_def Let_def)

lemma roundEven_err: "\<bar>real_of_int (roundEven y) - y\<bar> \<le> 1 / 2"
proof -
  define r where "r = y - real_of_int \<lfloor>y\<rfloor>"
  have r: "0 \<le> r" "r < 1" unfolding r_def by linarith+
  have y: "y = real_of_int \<lfloor>y\<rfloor> + r" by (simp add: r_def)
  consider "r < 1 / 2" | "1 / 2 < r" | "r = 1 / 2" by linarith
  then show ?thesis
  proof cases
    case 1
    then have "roundEven y = \<lfloor>y\<rfloor>" unfolding r_def by (rule roundEven_lower)
    with 1 r y show ?thesis by linarith
  next
    case 2
    then have "roundEven y = \<lfloor>y\<rfloor> + 1" unfolding r_def by (rule roundEven_upper)
    with 2 r y show ?thesis by (simp add: r_def) 
  next
    case 3
    from roundEven_cases[of y] show ?thesis
    proof
      assume "roundEven y = \<lfloor>y\<rfloor>" with 3 y show ?thesis by simp
    next
      assume "roundEven y = \<lfloor>y\<rfloor> + 1" with 3 show ?thesis by (simp add: r_def)
    qed
  qed
qed

lemma roundEven_mono: "a \<le> b \<Longrightarrow> roundEven a \<le> roundEven b"
proof -
  assume ab: "a \<le> b"
  then have fl: "\<lfloor>a\<rfloor> \<le> \<lfloor>b\<rfloor>" by (rule floor_mono)
  show ?thesis
  proof (cases "\<lfloor>a\<rfloor> < \<lfloor>b\<rfloor>")
    case True
    from roundEven_cases[of a] have "roundEven a \<le> \<lfloor>a\<rfloor> + 1" by auto
    moreover from roundEven_cases[of b] have "\<lfloor>b\<rfloor> \<le> roundEven b" by auto
    ultimately show ?thesis using True by linarith
  next
    case False
    with fl have eq: "\<lfloor>a\<rfloor> = \<lfloor>b\<rfloor>" by simp
    then have "a - real_of_int \<lfloor>a\<rfloor> \<le> b - real_of_int \<lfloor>b\<rfloor>" using ab by simp
    then show ?thesis unfolding roundEven_def Let_def eq by auto
  qed
qed

lemma roundEven_minus: "roundEven (- y) = - roundEven y"
proof (cases "y = real_of_int \<lfloor>y\<rfloor>")
  case True
  then obtain n where "y = real_of_int n" by blast
  then show ?thesis by (metis of_int_minus roundEven_of_int)
next
  case False
  then have f: "\<lfloor>- y\<rfloor> = - \<lfloor>y\<rfloor> - 1" by linarith
  define r where "r = y - real_of_int \<lfloor>y\<rfloor>"
  have r': "- y - real_of_int \<lfloor>- y\<rfloor> = 1 - r" unfolding f r_def by simp
  consider "r < 1 / 2" | "1 / 2 < r" | "r = 1 / 2" by linarith
  then show ?thesis
  proof cases
    case 1
    then have "roundEven y = \<lfloor>y\<rfloor>" unfolding r_def by (rule roundEven_lower)
    moreover from 1 have "1 / 2 < - y - real_of_int \<lfloor>- y\<rfloor>" unfolding r' by simp
    then have "roundEven (- y) = \<lfloor>- y\<rfloor> + 1" by (rule roundEven_upper)
    ultimately show ?thesis by (simp add: f)
  next
    case 2
    then have "roundEven y = \<lfloor>y\<rfloor> + 1" unfolding r_def by (rule roundEven_upper)
    moreover from 2 have "- y - real_of_int \<lfloor>- y\<rfloor> < 1 / 2" unfolding r' by simp
    then have "roundEven (- y) = \<lfloor>- y\<rfloor>" by (rule roundEven_lower)
    ultimately show ?thesis by (simp add: f)
  next
    case 3
    then have a: "roundEven y = (if even \<lfloor>y\<rfloor> then \<lfloor>y\<rfloor> else \<lfloor>y\<rfloor> + 1)"
      unfolding roundEven_def Let_def r_def[symmetric] by simp
    from 3 have "- y - real_of_int \<lfloor>- y\<rfloor> = 1 / 2" unfolding r' by simp
    then have b: "roundEven (- y) = (if even \<lfloor>- y\<rfloor> then \<lfloor>- y\<rfloor> else \<lfloor>- y\<rfloor> + 1)"
      unfolding roundEven_def Let_def by simp
    show ?thesis unfolding a b f by simp
  qed
qed

lemma roundEven_zero [simp]: "roundEven 0 = 0"
  using roundEven_of_int[of 0] by simp

lemma roundEven_nonneg: "0 \<le> y \<Longrightarrow> 0 \<le> roundEven y"
  using roundEven_mono[of 0 y] by simp

subsection \<open>The binary exponent\<close>

lemma expo_minus: "expo (- x) = expo x"
  by (simp add: expo_def)

lemma expo_bounds:
  assumes "x \<noteq> 0"
  shows "2 powi expo x \<le> \<bar>x\<bar> \<and> \<bar>x\<bar> < 2 powi (expo x + 1)"
proof (cases "1 \<le> \<bar>x\<bar>")
  case True
  define n where "n = \<lfloor>\<bar>x\<bar>\<rfloor>"
  have n: "0 < n" using True unfolding n_def by linarith
  have e: "expo x = bitlen n - 1" using True by (simp add: expo_def n_def)
  from bitlen_bounds[OF n] have b: "2 ^ nat (bitlen n - 1) \<le> n" "n < 2 ^ nat (bitlen n)"
    by simp_all
  have b1: "1 \<le> bitlen n" using n by (simp add: bitlen_alt_def) 
  have pw: "2 powi (bitlen n - 1) = (2::real) ^ nat (bitlen n - 1)"
    "2 powi (bitlen n - 1 + 1) = (2::real) ^ nat (bitlen n)"
    using b1 by (simp_all add: power_int_def)
  have "real_of_int n \<le> \<bar>x\<bar>" unfolding n_def by linarith
  moreover have "(2::real) ^ nat (bitlen n - 1) \<le> real_of_int n"
    using b(1) by (metis of_int_le_iff of_int_numeral of_int_power)
  ultimately have lo: "2 powi expo x \<le> \<bar>x\<bar>"
    unfolding e pw by linarith
  have "n + 1 \<le> 2 ^ nat (bitlen n)" using b(2) by simp
  then have "real_of_int (n + 1) \<le> (2::real) ^ nat (bitlen n)"
    by (metis of_int_le_iff of_int_numeral of_int_power)
  moreover have "\<bar>x\<bar> < real_of_int (n + 1)" unfolding n_def by linarith
  ultimately have hi: "\<bar>x\<bar> < 2 powi (expo x + 1)"
    unfolding e pw by linarith
  from lo hi show ?thesis ..
next
  case False
  define y where "y = 1 / \<bar>x\<bar>"
  have x: "0 < \<bar>x\<bar>" "\<bar>x\<bar> < 1" using assms False by simp_all
  have y1: "1 < y" unfolding y_def using x by simp
  define m where "m = \<lceil>y\<rceil> - 1"
  have m: "0 < m" unfolding m_def using y1 by linarith
  have e: "expo x = - bitlen m" using False by (simp add: expo_def m_def y_def)
  from bitlen_bounds[OF m] have b: "2 ^ nat (bitlen m - 1) \<le> m" "m < 2 ^ nat (bitlen m)"
    by simp_all
  have b1: "1 \<le> bitlen m" using m by (simp add: bitlen_alt_def)
  have "m + 1 \<le> 2 ^ nat (bitlen m)" using b(2) by simp
  then have "real_of_int (m + 1) \<le> (2::real) ^ nat (bitlen m)"
    by (metis of_int_le_iff of_int_numeral of_int_power)
  moreover have "y \<le> real_of_int (m + 1)" unfolding m_def by simp
  ultimately have "y \<le> 2 ^ nat (bitlen m)" by linarith
  then have "1 / 2 ^ nat (bitlen m) \<le> \<bar>x\<bar>"
    unfolding y_def using x by (simp add: field_simps)
  then have lo: "2 powi expo x \<le> \<bar>x\<bar>"
    unfolding e using b1 by (simp add: power_int_def field_simps)
  have "(2::real) ^ nat (bitlen m - 1) \<le> real_of_int m"
    using b(1) by (metis of_int_le_iff of_int_numeral of_int_power)
  moreover have "real_of_int m < y" unfolding m_def by linarith
  ultimately have "2 ^ nat (bitlen m - 1) < y" by linarith
  then have "\<bar>x\<bar> < 1 / 2 ^ nat (bitlen m - 1)"
    unfolding y_def using x by (simp add: field_simps)
  moreover have "2 powi (expo x + 1) = 1 / (2::real) ^ nat (bitlen m - 1)"
  proof -
    have "expo x + 1 = - (bitlen m - 1)" by (simp add: e)
    then have "2 powi (expo x + 1) = (2::real) powi (- (bitlen m - 1))" by simp
    also have "\<dots> = 1 / 2 powi (bitlen m - 1)" by (rule power_int_minus_divide)
    also have "\<dots> = 1 / 2 ^ nat (bitlen m - 1)" using b1 by (simp add: power_int_def)
    finally show ?thesis .
  qed
  ultimately have hi: "\<bar>x\<bar> < 2 powi (expo x + 1)" by simp
  from lo hi show ?thesis ..
qed

lemma powi_two_less_cancel: "(2::real) powi a < 2 powi b \<Longrightarrow> a < b"
proof (rule ccontr)
  assume lt: "(2::real) powi a < 2 powi b" and "\<not> a < b"
  then have "b \<le> a" by simp
  then have "(2::real) powi b \<le> 2 powi a" by (intro power_int_increasing) simp_all
  with lt show False by simp
qed

lemma expo_unique:
  assumes "2 powi k \<le> \<bar>x\<bar>" "\<bar>x\<bar> < 2 powi (k + 1)"
  shows "expo x = k"
proof -
  have pos: "(0::real) < 2 powi k" by simp
  have nz: "x \<noteq> 0"
  proof
    assume "x = 0"
    with assms(1) have "(2::real) powi k \<le> 0" by simp
    with pos show False by linarith
  qed
  from expo_bounds[OF nz] have b: "2 powi expo x \<le> \<bar>x\<bar>" "\<bar>x\<bar> < 2 powi (expo x + 1)"
    by simp_all
  have "(2::real) powi k < 2 powi (expo x + 1)" using assms(1) b(2) by linarith
  then have "k < expo x + 1" by (rule powi_two_less_cancel)
  moreover have "(2::real) powi expo x < 2 powi (k + 1)" using assms(2) b(1) by linarith
  then have "expo x < k + 1" by (rule powi_two_less_cancel)
  ultimately show ?thesis by simp
qed

lemma expo_mono:
  assumes "x \<noteq> 0" "\<bar>x\<bar> \<le> \<bar>y\<bar>"
  shows "expo x \<le> expo y"
proof -
  have ny: "y \<noteq> 0" using assms by auto
  from expo_bounds[OF assms(1)] expo_bounds[OF ny] assms(2)
  have "(2::real) powi expo x < 2 powi (expo y + 1)" by linarith
  then have "expo x < expo y + 1" by (rule powi_two_less_cancel)
  then show ?thesis by simp
qed


subsection \<open>Rounding to a double\<close>

lemma fl_powi: "fl x = real_of_int (roundEven (x / 2 powi gexp x)) * 2 powi gexp x"
proof (cases "x = 0")
  case True
  then show ?thesis by (simp add: fl_def)
next
  case False
  show ?thesis
  proof (cases "0 \<le> gexp x")
    case True
    then have p: "(2::real) powi gexp x = 2 ^ nat (gexp x)" by (simp add: power_int_def)
    show ?thesis unfolding p using False True
      by (simp add: fl_def Let_def gexp_def[symmetric])
  next
    case neg: False
    then have p: "(2::real) powi gexp x = 1 / 2 ^ nat (- gexp x)"
      by (simp add: power_int_def field_simps)
    show ?thesis unfolding p using False neg
      by (simp add: fl_def Let_def gexp_def[symmetric])
  qed
qed

lemma gexp_minus: "gexp (- x) = gexp x"
  by (simp add: gexp_def expo_minus)

lemma fl_minus: "fl (- x) = - fl x"
  unfolding fl_powi gexp_minus by (simp add: roundEven_minus)

lemma fl_zero [simp]: "fl 0 = 0"
  by (simp add: fl_def)

lemma fl_nonneg: "0 \<le> x \<Longrightarrow> 0 \<le> fl x"
  unfolding fl_powi by (simp add: roundEven_nonneg)

lemma fl_nonpos: "x \<le> 0 \<Longrightarrow> fl x \<le> 0"
  using fl_nonneg[of "- x"] by (simp add: fl_minus)

lemma gexp_mono:
  assumes "x \<noteq> 0" "\<bar>x\<bar> \<le> \<bar>y\<bar>"
  shows "gexp x \<le> gexp y"
  using expo_mono[OF assms] unfolding gexp_def by simp

lemma fl_mono_pos:
  assumes x: "0 < x" and xy: "x \<le> y"
  shows "fl x \<le> fl y"
proof -
  have y: "0 < y" using x xy by simp
  have g: "gexp x \<le> gexp y" using x xy by (intro gexp_mono) simp_all
  show ?thesis
  proof (cases "gexp x = gexp y")
    case True
    have "x / 2 powi gexp y \<le> y / 2 powi gexp y"
      using xy by (intro divide_right_mono) simp_all
    then have "roundEven (x / 2 powi gexp y) \<le> roundEven (y / 2 powi gexp y)"
      by (rule roundEven_mono)
    then show ?thesis unfolding fl_powi True
      by (intro mult_right_mono) simp_all
  next
    case False
    with g have lt: "gexp x < gexp y" by simp
    have bx: "\<bar>x\<bar> < 2 powi (expo x + 1)" using expo_bounds[of x] x by simp
    have "expo x + 1 \<le> gexp x + 53" by (simp add: gexp_def)
    then have "(2::real) powi (expo x + 1) \<le> 2 powi (gexp x + 53)"
      by (intro power_int_increasing) simp_all
    with bx x have "x < 2 powi (gexp x + 53)" by simp
    also have "(2::real) powi (gexp x + 53) = 2 powi gexp x * 2 ^ 53"
      by (simp add: power_int_add)
    finally have "x / 2 powi gexp x \<le> real_of_int (2 ^ 53)"
      by (simp add: field_simps)
    then have "roundEven (x / 2 powi gexp x) \<le> roundEven (real_of_int (2 ^ 53))"
      by (rule roundEven_mono)
    then have "roundEven (x / 2 powi gexp x) \<le> 2 ^ 53"
      unfolding roundEven_of_int .
    then have "real_of_int (roundEven (x / 2 powi gexp x)) \<le> 2 ^ 53"
      by (metis of_int_le_iff of_int_numeral of_int_power)
    then have "fl x \<le> 2 ^ 53 * 2 powi gexp x"
      unfolding fl_powi by (intro mult_right_mono) simp_all
    also have "\<dots> = 2 powi (gexp x + 53)" by (simp add: power_int_add)
    finally have fx: "fl x \<le> 2 powi (gexp x + 53)" .
    have "- 1074 \<le> gexp x" by (simp add: gexp_def)
    with lt have "- 1074 < gexp y" by simp
    then have "gexp y = expo y - 52" unfolding gexp_def by (simp add: max_def split: if_splits)
    then have ey: "expo y = gexp y + 52" by simp
    have "2 powi expo y \<le> \<bar>y\<bar>" using expo_bounds[of y] y by simp
    then have "2 powi (gexp y + 52) \<le> y" using y unfolding ey by simp
    also have "(2::real) powi (gexp y + 52) = 2 powi gexp y * 2 ^ 52"
      by (simp add: power_int_add)
    finally have "real_of_int (2 ^ 52) \<le> y / 2 powi gexp y"
      by (simp add: field_simps)
    then have "roundEven (real_of_int (2 ^ 52)) \<le> roundEven (y / 2 powi gexp y)"
      by (rule roundEven_mono)
    then have "2 ^ 52 \<le> roundEven (y / 2 powi gexp y)"
      unfolding roundEven_of_int .
    then have "2 ^ 52 \<le> real_of_int (roundEven (y / 2 powi gexp y))"
      by (metis of_int_le_iff of_int_numeral of_int_power)
    then have "2 ^ 52 * 2 powi gexp y \<le> fl y"
      unfolding fl_powi by (intro mult_right_mono) simp_all
    moreover have "2 ^ 52 * 2 powi gexp y = (2::real) powi (gexp y + 52)"
      by (simp add: power_int_add)
    ultimately have fy: "2 powi (gexp y + 52) \<le> fl y" by simp
    have "gexp x + 53 \<le> gexp y + 52" using lt by simp
    then have "(2::real) powi (gexp x + 53) \<le> 2 powi (gexp y + 52)"
      by (intro power_int_increasing) simp_all
    with fx fy show ?thesis by linarith
  qed
qed

lemma fl_mono: "x \<le> y \<Longrightarrow> fl x \<le> fl y"
proof -
  assume xy: "x \<le> y"
  consider "0 < x" | "x \<le> 0" "0 \<le> y" | "y < 0" by linarith
  then show ?thesis
  proof cases
    case 1
    then show ?thesis using xy by (rule fl_mono_pos)
  next
    case 2
    then have "fl x \<le> 0" "0 \<le> fl y" by (simp_all add: fl_nonpos fl_nonneg)
    then show ?thesis by simp
  next
    case 3
    then have "0 < - y" "- y \<le> - x" using xy by simp_all
    then have "fl (- y) \<le> fl (- x)" by (rule fl_mono_pos)
    then show ?thesis by (simp add: fl_minus)
  qed
qed

lemma fl_abs_le:
  assumes "\<bar>x\<bar> \<le> M" "fl M = M"
  shows "\<bar>fl x\<bar> \<le> M"
proof -
  have "fl x \<le> fl M" using assms(1) by (intro fl_mono) simp
  moreover have "fl (- M) \<le> fl x" using assms(1) by (intro fl_mono) simp
  ultimately show ?thesis using assms(2) by (simp add: fl_minus abs_le_iff)
qed

lemma fl_err_gexp: "\<bar>fl x - x\<bar> \<le> 2 powi gexp x / 2"
proof -
  define u where "u = (2::real) powi gexp x"
  have u: "0 < u" by (simp add: u_def)
  have "fl x - x = (real_of_int (roundEven (x / u)) - x / u) * u"
    unfolding fl_powi u_def[symmetric] using u by (simp add: field_simps)
  then have "\<bar>fl x - x\<bar> = \<bar>real_of_int (roundEven (x / u)) - x / u\<bar> * u"
    using u by (simp add: abs_mult)
  also have "\<dots> \<le> (1 / 2) * u"
    using u roundEven_err[of "x / u"] by (intro mult_right_mono) simp_all
  finally show ?thesis by (simp add: u_def)
qed

lemma fl_err: "\<bar>fl x - x\<bar> \<le> \<bar>x\<bar> / 2 ^ 53 + 1 / 2 ^ 1075"
proof (cases "x = 0")
  case True
  then show ?thesis by simp
next
  case False
  show ?thesis
  proof (cases "- 1074 \<le> expo x - 52")
    case True
    then have g: "gexp x = expo x - 53 + 1" by (simp add: gexp_def)
    have "(2::real) powi (expo x - 53 + 1) = 2 powi (expo x - 53) * 2"
      by (rule power_int_add_1) simp
    then have "(2::real) powi gexp x / 2 = 2 powi (expo x - 53)"
      unfolding g by simp
    also have "\<dots> = 2 powi expo x / 2 ^ 53"
      by (simp add: power_int_diff)
    also have "\<dots> \<le> \<bar>x\<bar> / 2 ^ 53"
      using expo_bounds[OF False] by (intro divide_right_mono) simp_all
    finally have "(2::real) powi gexp x / 2 \<le> \<bar>x\<bar> / 2 ^ 53" .
    with fl_err_gexp[of x] show ?thesis by (smt (verit) divide_nonneg_pos zero_less_power)
  next
    case neg: False
    then have g: "gexp x = - 1074" by (simp add: gexp_def)
    have "(2::real) powi gexp x / 2 = 1 / 2 ^ 1075"
      unfolding g by (simp add: power_int_minus_divide)
    with fl_err_gexp[of x] show ?thesis
      by (smt (verit) abs_ge_zero divide_nonneg_pos zero_less_power)
  qed
qed

lemma double_below_one:
  assumes "fl r = r" "0 \<le> r" "r < 1"
  shows "r \<le> 1 - 1 / 2 ^ 53"
proof (cases "r < 1 / 2")
  case True
  then show ?thesis by (simp add: field_simps)
next
  case False
  then have h: "1 / 2 \<le> r" by simp
  have "expo r = - 1"
    by (rule expo_unique) (use h assms in \<open>simp_all add: power_int_minus_divide\<close>)
  then have g: "gexp r = - 53" by (simp add: gexp_def)
  have p: "(2::real) powi (- 53) = 1 / 2 ^ 53" by (simp add: power_int_minus_divide)
  define M where "M = roundEven (r / 2 powi (- 53))"
  have "fl r = real_of_int M * 2 powi (- 53)"
    unfolding M_def using fl_powi[of r] unfolding g .
  then have r: "r = real_of_int M / 2 ^ 53"
    unfolding assms(1) p by simp
  then have "real_of_int M < 2 ^ 53" using assms(3) by (simp add: field_simps)
  then have "M < 2 ^ 53" by (metis of_int_less_iff of_int_numeral of_int_power)
  then have "M \<le> 2 ^ 53 - 1" by simp
  then have "real_of_int M \<le> real_of_int (2 ^ 53 - 1)"
    by (simp only: of_int_le_iff)
  then have "real_of_int M \<le> 2 ^ 53 - 1" by simp
  then show ?thesis unfolding r by (simp add: field_simps)
qed

subsection \<open>Indices drawn in doubles\<close>

text \<open>
  A double below 1 is at most \<open>1 - 2 ^ - 53\<close>; its rounded product with a count
  \<open>N \<le> 15\<close> stays below \<open>N\<close>, and the floor of its rounded product with the rounded
  \<open>N / 3\<close> stays below \<open>N / 3\<close>.
\<close>

lemma below_one_times_values:
  "fl ((1 - 1 / 2 ^ 53) * real_of_int 1) < real_of_int 1 \<and>
   fl ((1 - 1 / 2 ^ 53) * real_of_int 2) < real_of_int 2 \<and>
   fl ((1 - 1 / 2 ^ 53) * real_of_int 3) < real_of_int 3 \<and>
   fl ((1 - 1 / 2 ^ 53) * real_of_int 4) < real_of_int 4 \<and>
   fl ((1 - 1 / 2 ^ 53) * real_of_int 5) < real_of_int 5 \<and>
   fl ((1 - 1 / 2 ^ 53) * real_of_int 6) < real_of_int 6 \<and>
   fl ((1 - 1 / 2 ^ 53) * real_of_int 7) < real_of_int 7 \<and>
   fl ((1 - 1 / 2 ^ 53) * real_of_int 8) < real_of_int 8 \<and>
   fl ((1 - 1 / 2 ^ 53) * real_of_int 9) < real_of_int 9 \<and>
   fl ((1 - 1 / 2 ^ 53) * real_of_int 10) < real_of_int 10 \<and>
   fl ((1 - 1 / 2 ^ 53) * real_of_int 11) < real_of_int 11 \<and>
   fl ((1 - 1 / 2 ^ 53) * real_of_int 12) < real_of_int 12 \<and>
   fl ((1 - 1 / 2 ^ 53) * real_of_int 13) < real_of_int 13 \<and>
   fl ((1 - 1 / 2 ^ 53) * real_of_int 14) < real_of_int 14 \<and>
   fl ((1 - 1 / 2 ^ 53) * real_of_int 15) < real_of_int 15"
  by (simp add: fl_eval)

lemma below_one_times:
  "N \<in> set [1, 2, 3, 4, 5, 6, 7, 8, 9, 10, 11, 12, 13, 14, 15 :: int]
   \<Longrightarrow> fl ((1 - 1 / 2 ^ 53) * real_of_int N) < real_of_int N"
  using below_one_times_values by auto

lemma below_one_times_third_values:
  "real_of_int \<lfloor>fl ((1 - 1 / 2 ^ 53) * fl (real_of_int 1 / 3))\<rfloor> < real_of_int 1 / 3 \<and>
   real_of_int \<lfloor>fl ((1 - 1 / 2 ^ 53) * fl (real_of_int 2 / 3))\<rfloor> < real_of_int 2 / 3 \<and>
   real_of_int \<lfloor>fl ((1 - 1 / 2 ^ 53) * fl (real_of_int 3 / 3))\<rfloor> < real_of_int 3 / 3 \<and>
   real_of_int \<lfloor>fl ((1 - 1 / 2 ^ 53) * fl (real_of_int 4 / 3))\<rfloor> < real_of_int 4 / 3 \<and>
   real_of_int \<lfloor>fl ((1 - 1 / 2 ^ 53) * fl (real_of_int 5 / 3))\<rfloor> < real_of_int 5 / 3 \<and>
   real_of_int \<lfloor>fl ((1 - 1 / 2 ^ 53) * fl (real_of_int 6 / 3))\<rfloor> < real_of_int 6 / 3 \<and>
   real_of_int \<lfloor>fl ((1 - 1 / 2 ^ 53) * fl (real_of_int 7 / 3))\<rfloor> < real_of_int 7 / 3 \<and>
   real_of_int \<lfloor>fl ((1 - 1 / 2 ^ 53) * fl (real_of_int 8 / 3))\<rfloor> < real_of_int 8 / 3 \<and>
   real_of_int \<lfloor>fl ((1 - 1 / 2 ^ 53) * fl (real_of_int 9 / 3))\<rfloor> < real_of_int 9 / 3 \<and>
   real_of_int \<lfloor>fl ((1 - 1 / 2 ^ 53) * fl (real_of_int 10 / 3))\<rfloor> < real_of_int 10 / 3 \<and>
   real_of_int \<lfloor>fl ((1 - 1 / 2 ^ 53) * fl (real_of_int 11 / 3))\<rfloor> < real_of_int 11 / 3 \<and>
   real_of_int \<lfloor>fl ((1 - 1 / 2 ^ 53) * fl (real_of_int 12 / 3))\<rfloor> < real_of_int 12 / 3 \<and>
   real_of_int \<lfloor>fl ((1 - 1 / 2 ^ 53) * fl (real_of_int 13 / 3))\<rfloor> < real_of_int 13 / 3 \<and>
   real_of_int \<lfloor>fl ((1 - 1 / 2 ^ 53) * fl (real_of_int 14 / 3))\<rfloor> < real_of_int 14 / 3 \<and>
   real_of_int \<lfloor>fl ((1 - 1 / 2 ^ 53) * fl (real_of_int 15 / 3))\<rfloor> < real_of_int 15 / 3"
  by (simp add: fl_eval)

lemma below_one_times_third:
  "N \<in> set [1, 2, 3, 4, 5, 6, 7, 8, 9, 10, 11, 12, 13, 14, 15 :: int]
   \<Longrightarrow> real_of_int \<lfloor>fl ((1 - 1 / 2 ^ 53) * fl (real_of_int N / 3))\<rfloor> < real_of_int N / 3"
  using below_one_times_third_values by auto

lemma small_count: "1 \<le> N \<Longrightarrow> N \<le> 15
  \<Longrightarrow> N \<in> set [1, 2, 3, 4, 5, 6, 7, 8, 9, 10, 11, 12, 13, 14, 15 :: int]"
  by (simp) presburger

lemma index_range:
  assumes "fl r = r" "0 \<le> r" "r < 1" "1 \<le> N" "N \<le> 15"
  shows "0 \<le> \<lfloor>fl (r * real_of_int N)\<rfloor> \<and> \<lfloor>fl (r * real_of_int N)\<rfloor> < N"
proof -
  have R: "r \<le> 1 - 1 / 2 ^ 53" using assms(1-3) by (rule double_below_one)
  have "r * real_of_int N \<le> (1 - 1 / 2 ^ 53) * real_of_int N"
    using R assms(4) by (intro mult_right_mono) simp_all
  then have "fl (r * real_of_int N) \<le> fl ((1 - 1 / 2 ^ 53) * real_of_int N)" by (rule fl_mono)
  also have "\<dots> < real_of_int N" using below_one_times[OF small_count[OF assms(4,5)]] .
  finally have "\<lfloor>fl (r * real_of_int N)\<rfloor> < N" by (simp add: floor_less_iff)
  moreover have "0 \<le> fl (r * real_of_int N)" using assms(2,4) by (intro fl_nonneg) simp
  ultimately show ?thesis by simp
qed

lemma third_range:
  assumes "fl r = r" "0 \<le> r" "r < 1" "1 \<le> N" "N \<le> 15"
  shows "0 \<le> \<lfloor>fl (r * fl (real_of_int N / 3))\<rfloor>
       \<and> real_of_int \<lfloor>fl (r * fl (real_of_int N / 3))\<rfloor> < real_of_int N / 3"
proof -
  define t where "t = fl (real_of_int N / 3)"
  have t: "0 \<le> t" unfolding t_def using assms(4) by (intro fl_nonneg) simp
  have R: "r \<le> 1 - 1 / 2 ^ 53" using assms(1-3) by (rule double_below_one)
  have "r * t \<le> (1 - 1 / 2 ^ 53) * t" using R t by (intro mult_right_mono) simp_all
  then have "fl (r * t) \<le> fl ((1 - 1 / 2 ^ 53) * t)" by (rule fl_mono)
  then have "\<lfloor>fl (r * t)\<rfloor> \<le> \<lfloor>fl ((1 - 1 / 2 ^ 53) * t)\<rfloor>" by (rule floor_mono)
  then have "real_of_int \<lfloor>fl (r * t)\<rfloor> \<le> real_of_int \<lfloor>fl ((1 - 1 / 2 ^ 53) * t)\<rfloor>" by simp
  also have "\<dots> < real_of_int N / 3"
    unfolding t_def using below_one_times_third[OF small_count[OF assms(4,5)]] .
  finally have "real_of_int \<lfloor>fl (r * t)\<rfloor> < real_of_int N / 3" .
  moreover have "0 \<le> fl (r * t)" using assms(2) t by (intro fl_nonneg) simp
  ultimately show ?thesis unfolding t_def by simp
qed

section \<open>Facts about printing numbers\<close>

lemma digitVal_digitChar: "n < 10 \<Longrightarrow> digitVal (digitChar n) = n"
proof -
  assume "n < 10"
  then have "n \<in> {0,1,2,3,4,5,6,7,8,9}" by auto
  then show ?thesis by (auto simp: digitVal_def digitChar_def)
qed

lemma strVal_digits: "strVal (digits n) = n"
proof (induction n rule: digits.induct)
  case (1 n)
  show ?case
  proof (cases "n < 10")
    case True
    then show ?thesis by (subst digits.simps) (simp add: strVal_def digitVal_digitChar)
  next
    case False
    with 1 have "strVal (digits (n div 10)) = n div 10" by simp
    with False show ?thesis
      by (subst digits.simps) (simp add: strVal_def digitVal_digitChar)
  qed
qed

lemma digits_inj: "digits n = digits m \<Longrightarrow> n = m"
  by (metis strVal_digits)

lemma digits_nonempty: "digits n \<noteq> []"
  by (subst digits.simps) simp

lemma digitChar_not_minus: "n < 10 \<Longrightarrow> digitChar n \<noteq> CHR ''-''"
proof -
  assume "n < 10"
  then have "n \<in> {0,1,2,3,4,5,6,7,8,9}" by auto
  then show ?thesis by (auto simp: digitChar_def)
qed

lemma hd_digits_not_minus: "hd (digits n) \<noteq> CHR ''-''"
proof (induction n rule: digits.induct)
  case (1 n)
  show ?case
  proof (cases "n < 10")
    case True
    then show ?thesis by (subst digits.simps) (simp add: digitChar_not_minus)
  next
    case False
    with 1 have "hd (digits (n div 10)) \<noteq> CHR ''-''" by simp
    with False show ?thesis
      by (subst digits.simps) (simp add: digits_nonempty)
  qed
qed

lemma numStr_inj: "numStr i = numStr j \<Longrightarrow> i = j"
proof -
  assume eq: "numStr i = numStr j"
  have neg: "False" if "a < 0" "\<not> b < 0" "numStr a = numStr b" for a b
  proof -
    from that have "CHR ''-'' # digits (nat (- a)) = digits (nat b)" by (simp add: numStr_def)
    then have "hd (digits (nat b)) = CHR ''-''" by (metis list.sel(1))
    then show False using hd_digits_not_minus by blast
  qed
  consider "i < 0" "j < 0" | "i < 0" "\<not> j < 0" | "\<not> i < 0" "j < 0" | "\<not> i < 0" "\<not> j < 0" by blast
  then show ?thesis
  proof cases
    case 1
    with eq have "digits (nat (- i)) = digits (nat (- j))" by (simp add: numStr_def)
    then have "nat (- i) = nat (- j)" by (rule digits_inj)
    with 1 show ?thesis by simp
  next
    case 2 then show ?thesis using neg eq by blast
  next
    case 3 then show ?thesis using neg[of j i] eq by simp
  next
    case 4
    with eq have "digits (nat i) = digits (nat j)" by (simp add: numStr_def)
    then have "nat i = nat j" by (rule digits_inj)
    with 4 show ?thesis by simp
  qed
qed

lemma pointCount_div: "pointCount lvl = min (5 + lvl div 10) 15"
  unfolding pointCount_def by (simp add: floor_divide_of_int_eq[of lvl 10, simplified])

section \<open>Facts about the generator\<close>

lemma fold_upt_inv:
  assumes "P s0" and "\<And>k s. k < n \<Longrightarrow> P s \<Longrightarrow> P (f k s)"
  shows "P (fold f [0..<n] s0)"
  using assms
proof (induction n)
  case 0
  then show ?case by simp
next
  case (Suc n)
  then have "P (fold f [0..<n] s0)" by simp
  then show ?case using Suc.prems(2)[of n] by simp
qed

lemma jsRem_mod: "0 \<le> a \<Longrightarrow> 0 < b \<Longrightarrow> jsRem a b = a mod b"
  by (cases "a = 0") (simp_all add: jsRem_def)

lemma pinId_inj: "pinId i = pinId j \<Longrightarrow> i = j"
  by (simp add: pinId_def numStr_inj)

lemma ropeKey_commute: "ropeKey i j = ropeKey j i"
  by (simp add: ropeKey_def min.commute max.commute)

lemma ropeInv_empty: "ropeInv P ({}, [])"
  by (simp add: ropeInv_def)

lemma ropeInv_addRope:
  assumes inv: "ropeInv P st" and P: "P i j"
  shows "ropeInv P (addRope i j st)"
proof (cases "i \<noteq> j \<and> ropeKey i j \<notin> fst st")
  case False
  then have "addRope i j st = st" by (auto simp: addRope_def Let_def)
  with inv show ?thesis by simp
next
  case True
  define nr where "nr = \<lparr>id_r = ''r'' @ numStr (int (length (snd st))),
     p1_r = ''p'' @ numStr i, p2_r = ''p'' @ numStr j, color_r = ''#ffffff''\<rparr>"
  have st': "addRope i j st = (insert (ropeKey i j) (fst st), snd st @ [nr])"
    using True by (simp add: addRope_def Let_def nr_def)
  have old: "\<exists>i' j'. P i' j' \<and> i' \<noteq> j' \<and> p1_r r = pinId i' \<and> p2_r r = pinId j'
          \<and> ropeKey i' j' \<in> fst st" if "r \<in> set (snd st)" for r
    using inv that unfolding ropeInv_def by blast
  have new: "{p1_r nr, p2_r nr} \<noteq> {p1_r r, p2_r r}" if r: "r \<in> set (snd st)" for r
  proof
    assume eq: "{p1_r nr, p2_r nr} = {p1_r r, p2_r r}"
    from old[OF r] obtain i' j' where ij: "p1_r r = pinId i'" "p2_r r = pinId j'"
      "ropeKey i' j' \<in> fst st" by blast
    from eq ij have "{pinId i, pinId j} = {pinId i', pinId j'}"
      by (simp add: nr_def pinId_def)
    then have "(i = i' \<and> j = j') \<or> (i = j' \<and> j = i')"
      by (auto simp: doubleton_eq_iff dest: pinId_inj)
    then have "ropeKey i j = ropeKey i' j'" using ropeKey_commute by auto
    with ij True show False by simp
  qed
  have a: "\<forall>r \<in> set (snd st @ [nr]). \<exists>i' j'. P i' j' \<and> i' \<noteq> j' \<and> p1_r r = pinId i'
       \<and> p2_r r = pinId j' \<and> ropeKey i' j' \<in> insert (ropeKey i j) (fst st)"
  proof
    fix r assume "r \<in> set (snd st @ [nr])"
    then consider "r \<in> set (snd st)" | "r = nr" by auto
    then show "\<exists>i' j'. P i' j' \<and> i' \<noteq> j' \<and> p1_r r = pinId i'
       \<and> p2_r r = pinId j' \<and> ropeKey i' j' \<in> insert (ropeKey i j) (fst st)"
    proof cases
      case 1
      from old[OF 1] show ?thesis by blast
    next
      case 2
      have "P i j \<and> i \<noteq> j \<and> p1_r r = pinId i \<and> p2_r r = pinId j
         \<and> ropeKey i j \<in> insert (ropeKey i j) (fst st)"
        using P True 2 by (simp add: nr_def pinId_def)
      then show ?thesis by blast
    qed
  qed
  have d0: "distinct (map (\<lambda>r. {p1_r r, p2_r r}) (snd st))"
    using inv unfolding ropeInv_def by blast
  have b: "distinct (map (\<lambda>r. {p1_r r, p2_r r}) (snd st @ [nr]))"
    using d0 new by auto
  show ?thesis unfolding st' ropeInv_def using a b by simp
qed

lemma okPair_range: "okPair N i j \<Longrightarrow> 0 \<le> i \<and> i < N \<and> 0 \<le> j \<and> j < N"
  by (auto simp: okPair_def)

lemma ropeInv_ring: "0 < N \<Longrightarrow> ropeInv (okPair N) (ringRopes N)"
  unfolding ringRopes_def
proof (rule fold_upt_inv)
  show "ropeInv (okPair N) ({}, [])" by (rule ropeInv_empty)
next
  fix k s
  assume N: "0 < N" and k: "k < nat N" and s: "ropeInv (okPair N) s"
  have j: "jsRem (int k + 1) N = (int k + 1) mod N" using N by (simp add: jsRem_mod)
  have "okPair N (int k) ((int k + 1) mod N)" using k N by (auto simp: okPair_def)
  with s show "ropeInv (okPair N) (addRope (int k) (jsRem (int k + 1) N) s)"
    unfolding j by (rule ropeInv_addRope)
qed

lemma pointCount_le: "pointCount lvl \<le> 15"
  unfolding pointCount_div by simp

lemma validRandom_draw:
  assumes "validRandom rnd"
  shows "fl (rnd n) = rnd n" and "0 \<le> rnd n" and "rnd n < 1"
  using assms by (simp_all add: validRandom_def)

lemma chordNode_range:
  assumes "validRandom rnd" "0 < N" "N \<le> 15"
  shows "0 \<le> chordNode rnd N k \<and> chordNode rnd N k < N"
proof -
  have N: "1 \<le> N" using assms(2) by simp
  show ?thesis unfolding chordNode_def
    using validRandom_draw[OF assms(1)] N assms(3) by (rule index_range)
qed

lemma chordOffset_range:
  assumes "validRandom rnd" "0 < N" "N \<le> 15"
  shows "2 \<le> chordOffset rnd N k \<and> real_of_int (chordOffset rnd N k) < 2 + real_of_int N / 3"
proof -
  have N: "1 \<le> N" using assms(2) by simp
  from third_range[OF validRandom_draw[OF assms(1)] N assms(3), of "2 * k + 1"]
  show ?thesis unfolding chordOffset_def by simp
qed

lemma chordStep_okPair:
  assumes "validRandom rnd" "0 < N" "N \<le> 15"
  shows "chordStep rnd N k st =
           addRope (chordNode rnd N k) ((chordNode rnd N k + chordOffset rnd N k) mod N) st
         \<and> okPair N (chordNode rnd N k) ((chordNode rnd N k + chordOffset rnd N k) mod N)"
proof -
  have n: "0 \<le> chordNode rnd N k" "chordNode rnd N k < N"
    using chordNode_range[OF assms] by simp_all
  have off: "2 \<le> chordOffset rnd N k"
    "real_of_int (chordOffset rnd N k) < 2 + real_of_int N / 3"
    using chordOffset_range[OF assms] by simp_all
  have "jsRem (chordNode rnd N k + chordOffset rnd N k) N
        = (chordNode rnd N k + chordOffset rnd N k) mod N"
    using n off assms(2) by (simp add: jsRem_mod)
  then show ?thesis using n off by (auto simp: chordStep_def Let_def okPair_def)
qed

lemma ropeInv_allRopes:
  assumes "validRandom rnd" "0 < pointCount lvl"
  shows "ropeInv (okPair (pointCount lvl)) (allRopes rnd lvl)"
  unfolding allRopes_def
proof (rule fold_upt_inv)
  show "ropeInv (okPair (pointCount lvl)) (ringRopes (pointCount lvl))"
    using assms(2) by (rule ropeInv_ring)
next
  fix k s
  assume s: "ropeInv (okPair (pointCount lvl)) s"
  from chordStep_okPair[OF assms pointCount_le, of k s] s
  show "ropeInv (okPair (pointCount lvl)) (chordStep rnd (pointCount lvl) k s)"
    by (simp add: ropeInv_addRope)
qed

lemma update_keeps_ids:
  assumes "i < length xs" "id_p v = id_p (xs ! i)"
  shows "map id_p (xs[i := v]) = map id_p xs"
  using assms by (simp add: map_update list_update_same_conv)

lemma scrambleStep_ok:
  assumes "validRandom rnd" "0 < pc" "pc \<le> 15" "int (length ps) = pc"
  shows "\<exists>qs. scrambleStep rnd pc base s ps = Inr qs \<and> map id_p qs = map id_p ps"
proof -
  define a where "a = \<lfloor>fl (rnd (base + 2 * s) * real_of_int pc)\<rfloor>"
  define b where "b = \<lfloor>fl (rnd (base + 2 * s + 1) * real_of_int pc)\<rfloor>"
  have pc: "1 \<le> pc" using assms(2) by simp
  have a: "0 \<le> a" "a < pc" unfolding a_def
    using index_range[OF validRandom_draw[OF assms(1)] pc assms(3), of "base + 2 * s"]
    by simp_all
  have b: "0 \<le> b" "b < pc" unfolding b_def
    using index_range[OF validRandom_draw[OF assms(1)] pc assms(3), of "base + 2 * s + 1"]
    by simp_all
  define ps1 where "ps1 = ps[nat a := (ps ! nat a)\<lparr>x_p := x_p (ps ! nat b)\<rparr>]"
  define ps2 where "ps2 = ps1[nat a := (ps1 ! nat a)\<lparr>y_p := y_p (ps1 ! nat b)\<rparr>]"
  define ps3 where "ps3 = ps2[nat b := (ps2 ! nat b)\<lparr>x_p := x_p (ps ! nat a)\<rparr>]"
  define ps4 where "ps4 = ps3[nat b := (ps3 ! nat b)\<lparr>y_p := y_p (ps ! nat a)\<rparr>]"
  have la: "nat a < length ps" and lb: "nat b < length ps" using a b assms(4) by auto
  have 1: "map id_p ps1 = map id_p ps" unfolding ps1_def using la
    by (intro update_keeps_ids) simp_all
  have l1: "length ps1 = length ps" by (simp add: ps1_def)
  have 2: "map id_p ps2 = map id_p ps1" unfolding ps2_def using la l1
    by (intro update_keeps_ids) simp_all
  have l2: "length ps2 = length ps" by (simp add: ps2_def l1)
  have 3: "map id_p ps3 = map id_p ps2" unfolding ps3_def using lb l2
    by (intro update_keeps_ids) simp_all
  have l3: "length ps3 = length ps" by (simp add: ps3_def l2)
  have 4: "map id_p ps4 = map id_p ps3" unfolding ps4_def using lb l3
    by (intro update_keeps_ids) simp_all
  have "scrambleStep rnd pc base s ps = Inr ps4"
    unfolding scrambleStep_def a_def[symmetric] b_def[symmetric] Let_def
      ps4_def ps3_def ps2_def ps1_def
    using a b assms(4) by simp
  then show ?thesis using 1 2 3 4 by simp
qed

lemma scramble_ok:
  assumes "validRandom rnd" "0 < pc" "pc \<le> 15" "int (length ps) = pc"
  shows "\<exists>qs. scramble rnd pc base n ps = Inr qs \<and> map id_p qs = map id_p ps"
proof (induction n)
  case 0
  show ?case by (simp add: scramble_def)
next
  case (Suc n)
  then obtain qs where qs: "scramble rnd pc base n ps = Inr qs" "map id_p qs = map id_p ps"
    by blast
  from qs(2) have "length qs = length ps" by (metis length_map)
  with assms(4) have "int (length qs) = pc" by simp
  from scrambleStep_ok[OF assms(1,2,3) this, of base n] obtain qs' where
    "scrambleStep rnd pc base n qs = Inr qs'" "map id_p qs' = map id_p qs" by blast
  with qs show ?case by (simp add: scramble_def)
qed

lemma scramble_zero: "scramble rnd pc base 0 ps = Inr ps"
  by (simp add: scramble_def)

lemma jitter_ids: "map id_p (jitter rnd base ps) = map id_p ps"
proof -
  have "map id_p (jitter rnd base ps) = map (id_p \<circ> snd) (enumerate 0 ps)"
    unfolding jitter_def by (simp add: case_prod_unfold comp_def)
  also have "\<dots> = map id_p ps" by (simp add: map_snd_enumerate flip: map_map)
  finally show ?thesis .
qed

lemma circlePoints_ids: "map id_p (circlePoints pc) = map (\<lambda>i. pinId (int i)) [0..<nat pc]"
  by (simp add: circlePoints_def mkPoint_def Let_def pinId_def comp_def)

lemma scrambleCount_pos_pointCount: "0 < scrambleCount lvl \<Longrightarrow> 0 < pointCount lvl"
  unfolding scrambleCount_def pointCount_div by simp

lemma generateLevel_returns:
  assumes "validRandom rnd"
  shows "\<exists>ld. generateLevel lvl rnd = Inr ld
           \<and> map id_p (points ld) = map (\<lambda>i. pinId (int i)) [0..<nat (pointCount lvl)]
           \<and> ropes ld = snd (allRopes rnd lvl)"
proof -
  define pc where "pc = pointCount lvl"
  define base where "base = 2 * nat (extraRopes lvl)"
  define n where "n = nat (scrambleCount lvl)"
  have "\<exists>qs. scramble rnd pc base n (circlePoints pc) = Inr qs
          \<and> map id_p qs = map id_p (circlePoints pc)"
  proof (cases "0 < scrambleCount lvl")
    case True
    then have pos: "0 < pc" unfolding pc_def by (rule scrambleCount_pos_pointCount)
    have le: "pc \<le> 15" unfolding pc_def by (rule pointCount_le)
    from pos have "int (length (circlePoints pc)) = pc" by (simp add: circlePoints_def)
    from scramble_ok[OF assms pos le this] show ?thesis .
  next
    case False
    then have "n = 0" by (simp add: n_def)
    then show ?thesis by (simp add: scramble_zero)
  qed
  then obtain qs where qs: "scramble rnd pc base n (circlePoints pc) = Inr qs"
    "map id_p qs = map id_p (circlePoints pc)" by blast
  have "generateLevel lvl rnd
        = Inr \<lparr>points = jitter rnd (base + 2 * n) qs, ropes = snd (allRopes rnd lvl)\<rparr>"
    unfolding generateLevel_def Let_def pc_def[symmetric] base_def[symmetric] n_def[symmetric]
    by (simp add: qs(1))
  then show ?thesis using qs(2) by (simp add: jitter_ids circlePoints_ids pc_def)
qed


lemma addRope_duplicate: "ropeKey i j \<in> fst st \<Longrightarrow> addRope i j st = st"
  by (simp add: addRope_def Let_def)

lemma pointCount_pos: "1 \<le> lvl \<Longrightarrow> 5 \<le> pointCount lvl"
  unfolding pointCount_div by simp

lemma pointCount_mono: "lvl1 \<le> lvl2 \<Longrightarrow> pointCount lvl1 \<le> pointCount lvl2"
  unfolding pointCount_div by (simp add: zdiv_mono1 min.coboundedI1)

lemma scrambleCount_mono: "lvl1 \<le> lvl2 \<Longrightarrow> scrambleCount lvl1 \<le> scrambleCount lvl2"
  unfolding scrambleCount_def by simp

lemma extraRopes_zero: "pointCount lvl = 0 \<Longrightarrow> extraRopes lvl = 0"
  by (simp add: extraRopes_def)

lemma generateLevel_length:
  assumes "validRandom rnd"
  shows "\<exists>ld. generateLevel lvl rnd = Inr ld \<and> length (points ld) = nat (pointCount lvl)"
proof -
  from generateLevel_returns[OF assms, of lvl] obtain ld where
    ld: "generateLevel lvl rnd = Inr ld"
    "map id_p (points ld) = map (\<lambda>i. pinId (int i)) [0..<nat (pointCount lvl)]" by blast
  from ld(2) have "length (points ld) = nat (pointCount lvl)"
    by (metis length_map length_upt minus_nat.diff_0)
  with ld(1) show ?thesis by blast
qed

lemma pinIds_distinct: "distinct (map (\<lambda>i. pinId (int i)) [0..<n])"
  by (simp add: distinct_map inj_on_def) (metis pinId_inj of_nat_eq_iff)

lemma pinId_in_range:
  assumes "0 \<le> i" "i < N"
  shows "pinId i \<in> set (map (\<lambda>k. pinId (int k)) [0..<nat N])"
proof -
  have "nat i \<in> set [0..<nat N]" using assms by simp
  moreover have "pinId (int (nat i)) = pinId i" using assms by simp
  ultimately show ?thesis by (metis (no_types, lifting) image_eqI set_map)
qed

lemma generateLevel_valid:
  assumes "1 \<le> lvl" "validRandom rnd"
  shows "\<exists>ld. generateLevel lvl rnd = Inr ld
     \<and> distinct (map id_p (points ld))
     \<and> (\<forall>r \<in> set (ropes ld). p1_r r \<noteq> p2_r r
            \<and> p1_r r \<in> set (map id_p (points ld)) \<and> p2_r r \<in> set (map id_p (points ld)))
     \<and> distinct (map (\<lambda>r. {p1_r r, p2_r r}) (ropes ld))"
proof -
  define N where "N = pointCount lvl"
  have N: "0 < N" using pointCount_pos[OF assms(1)] by (simp add: N_def)
  from generateLevel_returns[OF assms(2), of lvl] obtain ld where
    ld: "generateLevel lvl rnd = Inr ld"
    "map id_p (points ld) = map (\<lambda>i. pinId (int i)) [0..<nat N]"
    "ropes ld = snd (allRopes rnd lvl)" unfolding N_def by blast
  have inv: "ropeInv (okPair N) (allRopes rnd lvl)"
    unfolding N_def using assms(2) N[unfolded N_def] by (rule ropeInv_allRopes)
  have d: "distinct (map id_p (points ld))" unfolding ld(2) by (rule pinIds_distinct)
  have e: "p1_r r \<noteq> p2_r r \<and> p1_r r \<in> set (map id_p (points ld))
           \<and> p2_r r \<in> set (map id_p (points ld))" if "r \<in> set (ropes ld)" for r
  proof -
    from inv that obtain i j where ij: "okPair N i j" "i \<noteq> j" "p1_r r = pinId i"
      "p2_r r = pinId j" unfolding ropeInv_def ld(3) by blast
    from okPair_range[OF ij(1)] have rg: "0 \<le> i" "i < N" "0 \<le> j" "j < N" by simp_all
    have "pinId i \<noteq> pinId j" using ij(2) pinId_inj by blast
    then show ?thesis unfolding ld(2) ij(3,4)
      using pinId_in_range[OF rg(1,2)] pinId_in_range[OF rg(3,4)] by blast
  qed
  have u: "distinct (map (\<lambda>r. {p1_r r, p2_r r}) (ropes ld))"
    using inv unfolding ropeInv_def ld(3) by blast
  from ld(1) d e u show ?thesis by blast
qed





section \<open>Facts about the intersection test\<close>

subsection \<open>Rounding errors of the operations\<close>


lemma fl_close:
  assumes "\<bar>x\<bar> \<le> M"
  shows "\<bar>fl x - x\<bar> \<le> (M + 1) / 2 ^ 53"
proof -
  have "\<bar>fl x - x\<bar> \<le> \<bar>x\<bar> / 2 ^ 53 + 1 / 2 ^ 1075" by (rule fl_err)
  also have "\<dots> \<le> M / 2 ^ 53 + 1 / 2 ^ 53"
  proof (rule add_mono)
    show "\<bar>x\<bar> / 2 ^ 53 \<le> M / 2 ^ 53" using assms by (simp add: divide_right_mono)
    have "(2::real) ^ 53 \<le> 2 ^ 1075" by (rule power_increasing) simp_all
    then show "1 / (2::real) ^ 1075 \<le> 1 / 2 ^ 53" by (simp add: frac_le)
  qed
  finally show ?thesis by (simp add: add_divide_distrib)
qed

lemma fl_fix_values: "fl 32 = 32" "fl 1024 = 1024" "fl 2048 = 2048" "fl 4194304 = 4194304"
  "fl 1 = 1"
  by (simp_all add: fl_eval)

lemma sub_err:
  assumes "\<bar>x\<bar> \<le> 16" "\<bar>y\<bar> \<le> 16"
  shows "\<bar>fl (x - y) - (x - y)\<bar> \<le> 33 / 2 ^ 53" and "\<bar>fl (x - y)\<bar> \<le> 32"
proof -
  have b: "\<bar>x - y\<bar> \<le> 32" using assms by linarith
  from fl_close[OF b] show "\<bar>fl (x - y) - (x - y)\<bar> \<le> 33 / 2 ^ 53" by simp
  from fl_abs_le[OF b fl_fix_values(1)] show "\<bar>fl (x - y)\<bar> \<le> 32" .
qed

lemma mul_err:
  assumes xt: "\<bar>xt - x\<bar> \<le> 33 / 2 ^ 53" "\<bar>xt\<bar> \<le> 32"
    and yt: "\<bar>yt - y\<bar> \<le> 33 / 2 ^ 53" "\<bar>y\<bar> \<le> 32" "\<bar>yt\<bar> \<le> 32"
  shows "\<bar>fl (xt * yt) - x * y\<bar> \<le> 3137 / 2 ^ 53" and "\<bar>fl (xt * yt)\<bar> \<le> 1024"
proof -
  have b: "\<bar>xt * yt\<bar> \<le> 1024"
  proof -
    have "\<bar>xt\<bar> * \<bar>yt\<bar> \<le> 32 * 32" using xt(2) yt(3) by (intro mult_mono) simp_all
    then show ?thesis by (simp add: abs_mult)
  qed
  from fl_abs_le[OF b fl_fix_values(2)] show "\<bar>fl (xt * yt)\<bar> \<le> 1024" .
  have r: "\<bar>fl (xt * yt) - xt * yt\<bar> \<le> 1025 / 2 ^ 53" using fl_close[OF b] by simp
  have e: "xt * yt - x * y = xt * (yt - y) + y * (xt - x)" by (simp add: algebra_simps)
  have 1: "\<bar>xt * (yt - y)\<bar> \<le> 32 * (33 / 2 ^ 53)"
    unfolding abs_mult using xt(2) yt(1) by (intro mult_mono) simp_all
  have 2: "\<bar>y * (xt - x)\<bar> \<le> 32 * (33 / 2 ^ 53)"
    unfolding abs_mult using xt(1) yt(2) by (intro mult_mono) simp_all
  have "\<bar>xt * yt - x * y\<bar> \<le> 32 * (33 / 2 ^ 53) + 32 * (33 / 2 ^ 53)"
    unfolding e using 1 2 by linarith
  then have "\<bar>xt * yt - x * y\<bar> \<le> 2112 / 2 ^ 53" by simp
  with r show "\<bar>fl (xt * yt) - x * y\<bar> \<le> 3137 / 2 ^ 53" by linarith
qed

lemma add_err:
  assumes "\<bar>pt - p\<bar> \<le> 3137 / 2 ^ 53" "\<bar>pt\<bar> \<le> 1024"
    and "\<bar>qt - q\<bar> \<le> 3137 / 2 ^ 53" "\<bar>qt\<bar> \<le> 1024"
  shows "\<bar>fl (pt + qt) - (p + q)\<bar> \<le> 8323 / 2 ^ 53" and "\<bar>fl (pt + qt)\<bar> \<le> 2048"
proof -
  have b: "\<bar>pt + qt\<bar> \<le> 2048" using assms(2,4) by linarith
  from fl_abs_le[OF b fl_fix_values(3)] show "\<bar>fl (pt + qt)\<bar> \<le> 2048" .
  have r: "\<bar>fl (pt + qt) - (pt + qt)\<bar> \<le> 2049 / 2 ^ 53" using fl_close[OF b] by simp
  have "\<bar>(pt + qt) - (p + q)\<bar> \<le> 3137 / 2 ^ 53 + 3137 / 2 ^ 53" using assms(1,3) by linarith
  then have "\<bar>(pt + qt) - (p + q)\<bar> \<le> 6274 / 2 ^ 53" by simp
  with r show "\<bar>fl (pt + qt) - (p + q)\<bar> \<le> 8323 / 2 ^ 53" by linarith
qed

lemma crossF_err:
  assumes "\<bar>p\<bar> \<le> 16" "\<bar>q\<bar> \<le> 16" "\<bar>r\<bar> \<le> 16" "\<bar>s\<bar> \<le> 16"
    "\<bar>t\<bar> \<le> 16" "\<bar>u\<bar> \<le> 16" "\<bar>v\<bar> \<le> 16" "\<bar>w\<bar> \<le> 16"
  shows "\<bar>crossF p q r s t u v w - ((p - q) * (r - s) + (t - u) * (v - w))\<bar> \<le> 8323 / 2 ^ 53"
    and "\<bar>crossF p q r s t u v w\<bar> \<le> 2048"
proof -
  have rs: "\<bar>r - s\<bar> \<le> 32" using assms(3,4) by linarith
  have vw: "\<bar>v - w\<bar> \<le> 32" using assms(7,8) by linarith
  note m1 = mul_err[OF sub_err[OF assms(1,2)] sub_err(1)[OF assms(3,4)] rs sub_err(2)[OF assms(3,4)]]
  note m2 = mul_err[OF sub_err[OF assms(5,6)] sub_err(1)[OF assms(7,8)] vw sub_err(2)[OF assms(7,8)]]
  from add_err[OF m1 m2]
  show "\<bar>crossF p q r s t u v w - ((p - q) * (r - s) + (t - u) * (v - w))\<bar> \<le> 8323 / 2 ^ 53"
    and "\<bar>crossF p q r s t u v w\<bar> \<le> 2048"
    unfolding crossF_def by simp_all
qed

lemma quot_close:
  fixes nt n dt d e k :: real
  assumes n: "\<bar>nt - n\<bar> \<le> e" and d: "\<bar>dt - d\<bar> \<le> e" and k: "0 < k" "k \<le> \<bar>dt\<bar>"
    and d0: "d \<noteq> 0"
  shows "\<bar>nt / dt - n / d\<bar> \<le> e * (1 + \<bar>n / d\<bar>) / k"
proof -
  have dt0: "dt \<noteq> 0" using k by auto
  have e0: "0 \<le> e" using n by linarith
  have eq: "nt / dt - n / d = ((nt - n) - (n / d) * (dt - d)) / dt"
    using dt0 d0 by (simp add: field_simps)
  have "\<bar>(nt - n) - (n / d) * (dt - d)\<bar> \<le> \<bar>nt - n\<bar> + \<bar>n / d\<bar> * \<bar>dt - d\<bar>"
    by (metis abs_mult abs_triangle_ineq4)
  also have "\<dots> \<le> e + \<bar>n / d\<bar> * e" using n d by (intro add_mono mult_left_mono) simp_all
  finally have num: "\<bar>(nt - n) - (n / d) * (dt - d)\<bar> \<le> e * (1 + \<bar>n / d\<bar>)"
    by (simp add: algebra_simps)
  have nn: "0 \<le> e * (1 + \<bar>n / d\<bar>)" using e0 by simp
  have "\<bar>nt / dt - n / d\<bar> = \<bar>(nt - n) - (n / d) * (dt - d)\<bar> / \<bar>dt\<bar>"
    unfolding eq by simp
  also have "\<dots> \<le> e * (1 + \<bar>n / d\<bar>) / \<bar>dt\<bar>" using num by (simp add: divide_right_mono)
  also have "\<dots> \<le> e * (1 + \<bar>n / d\<bar>) / k" using nn k by (simp add: frac_le)
  finally show ?thesis .
qed

subsection \<open>The double operations\<close>

lemma doIntersect_computed:
  "doIntersect a b c d =
     (\<not> dless (dabs (detD a b c d)) (toDouble 0.001)
      \<and> (dless (toDouble 0.05) (lambdaD a b c d)
           \<and> dless (lambdaD a b c d) (dsub (Finite 1) (toDouble 0.05)))
      \<and> (dless (toDouble 0.05) (gammaD a b c d)
           \<and> dless (gammaD a b c d) (dsub (Finite 1) (toDouble 0.05))))"
  unfolding doIntersect_def detD_def lambdaD_def gammaD_def Let_def by simp

lemma const_values:
  "fl 0.001 = 1152921504606847 / 1152921504606846976"
  "fl 0.05 = 3602879701896397 / 72057594037927936"
  "fl (1 - fl 0.05) = 4278419646001971 / 4503599627370496"
  by (simp_all add: fl_eval)

lemma const_doubles:
  "toDouble 0.001 = Finite (fl 0.001)"
  "toDouble 0.05 = Finite (fl 0.05)"
  "dsub (Finite 1) (toDouble 0.05) = Finite (fl (1 - fl 0.05))"
  "dsub (Finite 1) (Finite (fl (1 / 20))) = Finite (fl (1 - fl (1 / 20)))"
  by (simp_all add: toDouble_def dsub_def fl_eval)

lemma toDouble_Finite:
  assumes "\<bar>x\<bar> \<le> M" "fl M = M" "M \<le> 4194304"
  shows "toDouble x = Finite (fl x)"
proof -
  have "\<bar>fl x\<bar> \<le> M" using assms(1,2) by (rule fl_abs_le)
  then have "\<bar>fl x\<bar> \<le> 4194304" using assms(3) by linarith
  moreover have "(4194304::real) < 2 ^ 1024" by simp
  ultimately have "\<not> 2 ^ 1024 \<le> fl x" "\<not> fl x \<le> - (2 ^ 1024)" by linarith+
  then show ?thesis by (simp add: toDouble_def Let_def)
qed

lemma dsub_coords:
  assumes "\<bar>x\<bar> \<le> 16" "\<bar>y\<bar> \<le> 16"
  shows "dsub (Finite x) (Finite y) = Finite (fl (x - y))"
proof -
  have b: "\<bar>x - y\<bar> \<le> 32" using assms by linarith
  show ?thesis unfolding dsub_def using toDouble_Finite[OF b fl_fix_values(1)] by simp
qed

lemma dmul_diffs:
  assumes "\<bar>x\<bar> \<le> 32" "\<bar>y\<bar> \<le> 32"
  shows "dmul (Finite x) (Finite y) = Finite (fl (x * y))"
proof -
  have "\<bar>x\<bar> * \<bar>y\<bar> \<le> 32 * 32" using assms by (intro mult_mono) simp_all
  then have b: "\<bar>x * y\<bar> \<le> 1024" by (simp add: abs_mult)
  show ?thesis using toDouble_Finite[OF b fl_fix_values(2)] by simp
qed

lemma dadd_prods:
  assumes "\<bar>x\<bar> \<le> 1024" "\<bar>y\<bar> \<le> 1024"
  shows "dadd (Finite x) (Finite y) = Finite (fl (x + y))"
proof -
  have b: "\<bar>x + y\<bar> \<le> 2048" using assms by linarith
  show ?thesis using toDouble_Finite[OF b fl_fix_values(3)] by simp
qed

lemma crossD:
  assumes "\<bar>p\<bar> \<le> 16" "\<bar>q\<bar> \<le> 16" "\<bar>r\<bar> \<le> 16" "\<bar>s\<bar> \<le> 16"
    "\<bar>t\<bar> \<le> 16" "\<bar>u\<bar> \<le> 16" "\<bar>v\<bar> \<le> 16" "\<bar>w\<bar> \<le> 16"
  shows "dadd (dmul (dsub (Finite p) (Finite q)) (dsub (Finite r) (Finite s)))
              (dmul (dsub (Finite t) (Finite u)) (dsub (Finite v) (Finite w)))
         = Finite (crossF p q r s t u v w)"
proof -
  have rs: "\<bar>r - s\<bar> \<le> 32" using assms(3,4) by linarith
  have vw: "\<bar>v - w\<bar> \<le> 32" using assms(7,8) by linarith
  note m1 = mul_err[OF sub_err[OF assms(1,2)] sub_err(1)[OF assms(3,4)] rs sub_err(2)[OF assms(3,4)]]
  note m2 = mul_err[OF sub_err[OF assms(5,6)] sub_err(1)[OF assms(7,8)] vw sub_err(2)[OF assms(7,8)]]
  show ?thesis
    unfolding dsub_coords[OF assms(1,2)] dsub_coords[OF assms(3,4)]
      dsub_coords[OF assms(5,6)] dsub_coords[OF assms(7,8)]
      dmul_diffs[OF sub_err(2)[OF assms(1,2)] sub_err(2)[OF assms(3,4)]]
      dmul_diffs[OF sub_err(2)[OF assms(5,6)] sub_err(2)[OF assms(7,8)]]
      dadd_prods[OF m1(2) m2(2)] crossF_def ..
qed

lemma toDouble_minus: "toDouble (- x) = dneg (toDouble x)"
  by (simp add: toDouble_def Let_def fl_minus)

lemma dadd_commute: "dadd x y = dadd y x"
  by (cases x; cases y) (simp_all add: add.commute)

lemma dmul_commute: "dmul x y = dmul y x"
  by (cases x; cases y) (simp_all add: mult.commute)

lemma dneg_dadd: "dneg (dadd x y) = dadd (dneg x) (dneg y)"
  by (cases x; cases y) (simp_all flip: toDouble_minus)

lemma dneg_dneg [simp]: "dneg (dneg x) = x"
  by (cases x) simp_all

lemma dabs_dneg [simp]: "dabs (dneg x) = dabs x"
  by (cases x) simp_all

lemma dmul_dneg_left: "dmul (dneg x) y = dneg (dmul x y)"
  by (cases x; cases y) (simp_all flip: toDouble_minus)

lemma dsub_swap: "dsub y x = dneg (dsub x y)"
  unfolding dsub_def dneg_dadd dneg_dneg by (rule dadd_commute)

lemma detD_swap: "detD c d a b = dneg (detD a b c d)"
  unfolding detD_def
  by (subst dsub_swap) (simp add: dmul_commute)

lemma detD_as_sum:
  "detD a b c d =
     dadd (dmul (dsub (Finite (vx b)) (Finite (vx a))) (dsub (Finite (vy d)) (Finite (vy c))))
          (dmul (dsub (Finite (vy a)) (Finite (vy b))) (dsub (Finite (vx d)) (Finite (vx c))))"
  unfolding detD_def dsub_def[of "dmul _ _"] dmul_dneg_left[symmetric]
  by (simp add: dsub_swap[of "Finite (vy b)"])

subsection \<open>Pins of the play field\<close>

lemma inBox16: "inBox p \<Longrightarrow> \<bar>vx p\<bar> \<le> 16" "inBox p \<Longrightarrow> \<bar>vy p\<bar> \<le> 16"
  by (simp_all add: inBox_def)

lemma computed_inBox:
  assumes a: "inBox a" and b: "inBox b" and c: "inBox c" and d: "inBox d"
  shows "detD a b c d = Finite (detF a b c d)"
    and "\<bar>detF a b c d - det4 a b c d\<bar> \<le> 8323 / 2 ^ 53"
    and "\<bar>numLF a b c d - numL4 a b c d\<bar> \<le> 8323 / 2 ^ 53"
    and "\<bar>numGF a b c d - numG4 a b c d\<bar> \<le> 8323 / 2 ^ 53"
    and "\<bar>numLF a b c d\<bar> \<le> 2048"
    and "\<bar>numGF a b c d\<bar> \<le> 2048"
    and "detF a b c d \<noteq> 0 \<Longrightarrow> \<bar>numLF a b c d / detF a b c d\<bar> \<le> 4194304 \<Longrightarrow>
           lambdaD a b c d = Finite (fl (numLF a b c d / detF a b c d))"
    and "detF a b c d \<noteq> 0 \<Longrightarrow> \<bar>numGF a b c d / detF a b c d\<bar> \<le> 4194304 \<Longrightarrow>
           gammaD a b c d = Finite (fl (numGF a b c d / detF a b c d))"
proof -
  note bx = inBox16[OF a] inBox16[OF b] inBox16[OF c] inBox16[OF d]
  show D: "detD a b c d = Finite (detF a b c d)"
    unfolding detD_as_sum detF_def
    by (rule crossD) (fact bx)+
  have e: "det4 a b c d
      = (vx b - vx a) * (vy d - vy c) + (vy a - vy b) * (vx d - vx c)"
    by (simp add: det4_def algebra_simps)
  show "\<bar>detF a b c d - det4 a b c d\<bar> \<le> 8323 / 2 ^ 53"
    unfolding detF_def e by (rule crossF_err) (fact bx)+
  show "\<bar>numLF a b c d - numL4 a b c d\<bar> \<le> 8323 / 2 ^ 53"
    unfolding numLF_def numL4_def by (rule crossF_err) (fact bx)+
  show "\<bar>numGF a b c d - numG4 a b c d\<bar> \<le> 8323 / 2 ^ 53"
    unfolding numGF_def numG4_def by (rule crossF_err) (fact bx)+
  show "\<bar>numLF a b c d\<bar> \<le> 2048"
    unfolding numLF_def by (rule crossF_err) (fact bx)+
  show "\<bar>numGF a b c d\<bar> \<le> 2048"
    unfolding numGF_def by (rule crossF_err) (fact bx)+
  have L: "dadd (dmul (dsub (Finite (vy d)) (Finite (vy c))) (dsub (Finite (vx d)) (Finite (vx a))))
                (dmul (dsub (Finite (vx c)) (Finite (vx d))) (dsub (Finite (vy d)) (Finite (vy a))))
           = Finite (numLF a b c d)"
    unfolding numLF_def by (rule crossD) (fact bx)+
  have G: "dadd (dmul (dsub (Finite (vy a)) (Finite (vy b))) (dsub (Finite (vx d)) (Finite (vx a))))
                (dmul (dsub (Finite (vx b)) (Finite (vx a))) (dsub (Finite (vy d)) (Finite (vy a))))
           = Finite (numGF a b c d)"
    unfolding numGF_def by (rule crossD) (fact bx)+
  show "lambdaD a b c d = Finite (fl (numLF a b c d / detF a b c d))"
    if "detF a b c d \<noteq> 0" "\<bar>numLF a b c d / detF a b c d\<bar> \<le> 4194304"
    unfolding lambdaD_def L D using that(1) toDouble_Finite[OF that(2) fl_fix_values(4)]
    by simp
  show "gammaD a b c d = Finite (fl (numGF a b c d / detF a b c d))"
    if "detF a b c d \<noteq> 0" "\<bar>numGF a b c d / detF a b c d\<bar> \<le> 4194304"
    unfolding gammaD_def G D using that(1) toDouble_Finite[OF that(2) fl_fix_values(4)]
    by simp
qed

lemma const_bounds:
  "(1 / 1000 :: real) \<le> fl 0.001" "fl 0.001 \<le> 1 / 1000 + 1 / 10 ^ 12"
  "(8323 :: real) / 2 ^ 53 \<le> 1 / 10 ^ 12"
  "fl 0.05 < fl (1 / 20 + 8 / 10 ^ 9)"
  "fl (19 / 20 - 8 / 10 ^ 9) < fl (1 - fl 0.05)"
  "fl (fl (1 - fl 0.05)) = fl (1 - fl 0.05)"
  "fl (1 - fl 0.05) \<le> 19 / 20"
  "fl 0.05 = fl (1 / 20)"
  by (simp_all add: fl_eval)

lemma quotient_bounded:
  fixes nt dt :: real
  assumes "\<bar>nt\<bar> \<le> 2048" "1 / 1000 \<le> \<bar>dt\<bar>"
  shows "\<bar>nt / dt\<bar> \<le> 4194304"
proof -
  have "\<bar>nt\<bar> / \<bar>dt\<bar> \<le> 2048 / (1 / 1000)" using assms by (intro frac_le) simp_all
  then show ?thesis by simp
qed

lemma doIntersect_inBox:
  assumes "inBox a" "inBox b" "inBox c" "inBox d"
  shows "doIntersect a b c d =
     (\<not> \<bar>detF a b c d\<bar> < fl 0.001
      \<and> (fl 0.05 < fl (numLF a b c d / detF a b c d)
           \<and> fl (numLF a b c d / detF a b c d) < fl (1 - fl 0.05))
      \<and> (fl 0.05 < fl (numGF a b c d / detF a b c d)
           \<and> fl (numGF a b c d / detF a b c d) < fl (1 - fl 0.05)))"
proof (cases "\<bar>detF a b c d\<bar> < fl 0.001")
  case True
  then show ?thesis
    unfolding doIntersect_computed computed_inBox(1)[OF assms] const_doubles(1,2)
    by (simp add: const_doubles(4))
next
  case False
  then have k: "1 / 1000 \<le> \<bar>detF a b c d\<bar>" using const_bounds(1) by linarith
  then have nz: "detF a b c d \<noteq> 0" by auto
  note l = computed_inBox(7)[OF assms nz quotient_bounded[OF computed_inBox(5)[OF assms] k]]
  note g = computed_inBox(8)[OF assms nz quotient_bounded[OF computed_inBox(6)[OF assms] k]]
  show ?thesis
    unfolding doIntersect_computed computed_inBox(1)[OF assms] const_doubles(1,2) l g
      by (simp add: const_doubles(4))
qed

subsection \<open>Agreement with the exact test away from the thresholds\<close>

lemma near_bounds:
  fixes x y e :: real
  assumes "\<bar>x - y\<bar> \<le> e"
  shows "y - e \<le> x" and "x \<le> y + e"
  using assms by linarith+

lemma abs_le_one:
  fixes q :: real
  assumes "lo \<le> q" "q \<le> hi" "0 \<le> lo" "hi \<le> 1"
  shows "\<bar>q\<bar> \<le> 1"
  using assms by linarith

lemma abs_near:
  fixes x y e :: real
  assumes "\<bar>x - y\<bar> \<le> e"
  shows "\<bar>y\<bar> - e \<le> \<bar>x\<bar>" and "\<bar>x\<bar> \<le> \<bar>y\<bar> + e"
  using assms by linarith+

lemma stable_guard:
  fixes dt d :: real
  assumes d: "\<bar>dt - d\<bar> \<le> 8323 / 2 ^ 53"
  shows "1 / 1000 + 1 / 10 ^ 11 \<le> \<bar>d\<bar> \<Longrightarrow> \<not> \<bar>dt\<bar> < fl 0.001"
    and "\<bar>d\<bar> \<le> 1 / 1000 - 1 / 10 ^ 11 \<Longrightarrow> \<bar>dt\<bar> < fl 0.001"
    and "\<not> \<bar>dt\<bar> < fl 0.001 \<Longrightarrow> 1 / 1000 - 1 / 10 ^ 11 < \<bar>d\<bar>"
proof -
  have e: "\<bar>dt - d\<bar> \<le> 1 / 10 ^ 12" using d const_bounds(3) by linarith
  note a = abs_near[OF e]
  show "\<not> \<bar>dt\<bar> < fl 0.001" if "1 / 1000 + 1 / 10 ^ 11 \<le> \<bar>d\<bar>"
  proof -
    have "1 / 1000 + 1 / 10 ^ 11 - 1 / 10 ^ 12 \<le> \<bar>dt\<bar>" using that a(1) by linarith
    moreover have "(1 / 1000 + 1 / 10 ^ 12 :: real) \<le> 1 / 1000 + 1 / 10 ^ 11 - 1 / 10 ^ 12"
      by simp
    ultimately have "fl 0.001 \<le> \<bar>dt\<bar>" using const_bounds(2) by linarith
    then show ?thesis by simp
  qed
  show "\<bar>dt\<bar> < fl 0.001" if "\<bar>d\<bar> \<le> 1 / 1000 - 1 / 10 ^ 11"
  proof -
    have "\<bar>dt\<bar> \<le> 1 / 1000 - 1 / 10 ^ 11 + 1 / 10 ^ 12" using that a(2) by linarith
    moreover have "(1 / 1000 - 1 / 10 ^ 11 + 1 / 10 ^ 12 :: real) < 1 / 1000" by simp
    ultimately show ?thesis using const_bounds(1) by linarith
  qed
  show "1 / 1000 - 1 / 10 ^ 11 < \<bar>d\<bar>" if "\<not> \<bar>dt\<bar> < fl 0.001"
  proof -
    have "1 / 1000 \<le> \<bar>dt\<bar>" using that const_bounds(1) by linarith
    then have "1 / 1000 - 1 / 10 ^ 12 \<le> \<bar>d\<bar>" using a(2) by linarith
    moreover have "(1 / 1000 - 1 / 10 ^ 11 :: real) < 1 / 1000 - 1 / 10 ^ 12" by simp
    ultimately show ?thesis by linarith
  qed
qed

lemma stable_inside:
  fixes nt n dt d :: real
  assumes n: "\<bar>nt - n\<bar> \<le> 8323 / 2 ^ 53" and d: "\<bar>dt - d\<bar> \<le> 8323 / 2 ^ 53"
    and big: "1 / 1000 + 1 / 10 ^ 11 \<le> \<bar>d\<bar>"
    and lo: "1 / 20 + 1 / 10 ^ 8 \<le> n / d" and hi: "n / d \<le> 19 / 20 - 1 / 10 ^ 8"
  shows "fl 0.05 < fl (nt / dt) \<and> fl (nt / dt) < fl (1 - fl 0.05)"
proof -
  have e: "\<bar>dt - d\<bar> \<le> 1 / 10 ^ 12" using d const_bounds(3) by linarith
  have "1 / 1000 + 1 / 10 ^ 11 - 1 / 10 ^ 12 \<le> \<bar>dt\<bar>"
    using big abs_near(1)[OF e] by linarith
  moreover have "(1 / 1000 :: real) \<le> 1 / 1000 + 1 / 10 ^ 11 - 1 / 10 ^ 12" by simp
  ultimately have dt: "1 / 1000 \<le> \<bar>dt\<bar>" by linarith
  have "(0::real) < 1 / 1000 + 1 / 10 ^ 11" by simp
  with big have d0: "d \<noteq> 0" by auto
  have k: "(0::real) < 1 / 1000" by simp
  have q: "\<bar>nt / dt - n / d\<bar> \<le> (8323 / 2 ^ 53) * (1 + \<bar>n / d\<bar>) / (1 / 1000)"
    by (rule quot_close[OF n d k dt d0])
  have "\<bar>n / d\<bar> \<le> 1" using lo hi by (rule abs_le_one) simp_all
  then have "(8323 / 2 ^ 53) * (1 + \<bar>n / d\<bar>) \<le> (1 / 10 ^ 12) * 2"
    using const_bounds(3) by (intro mult_mono) simp_all
  then have "(8323 / 2 ^ 53) * (1 + \<bar>n / d\<bar>) / (1 / 1000) \<le> (1 / 10 ^ 12) * 2 / (1 / 1000)"
    by (rule divide_right_mono) simp
  with q have c: "\<bar>nt / dt - n / d\<bar> \<le> 2 / 10 ^ 9" by simp
  have "(1 / 20 + 8 / 10 ^ 9 :: real) = 1 / 20 + 1 / 10 ^ 8 - 2 / 10 ^ 9" by simp
  then have "1 / 20 + 8 / 10 ^ 9 \<le> nt / dt" using near_bounds(1)[OF c] lo by linarith
  then have "fl (1 / 20 + 8 / 10 ^ 9) \<le> fl (nt / dt)" by (rule fl_mono)
  with const_bounds(4) have 1: "fl 0.05 < fl (nt / dt)" by linarith
  have "(19 / 20 - 8 / 10 ^ 9 :: real) = 19 / 20 - 1 / 10 ^ 8 + 2 / 10 ^ 9" by simp
  then have "nt / dt \<le> 19 / 20 - 8 / 10 ^ 9" using near_bounds(2)[OF c] hi by linarith
  then have "fl (nt / dt) \<le> fl (19 / 20 - 8 / 10 ^ 9)" by (rule fl_mono)
  with const_bounds(5) have 2: "fl (nt / dt) < fl (1 - fl 0.05)" by linarith
  from 1 2 show ?thesis ..
qed

lemma stable_outside:
  fixes nt n dt d :: real
  assumes n: "\<bar>nt - n\<bar> \<le> 8323 / 2 ^ 53" and d: "\<bar>dt - d\<bar> \<le> 8323 / 2 ^ 53"
    and g: "\<not> \<bar>dt\<bar> < fl 0.001"
    and lo: "fl 0.05 < fl (nt / dt)" and hi: "fl (nt / dt) < fl (1 - fl 0.05)"
  shows "1 / 20 - 1 / 10 ^ 8 < n / d \<and> n / d < 19 / 20 + 1 / 10 ^ 8"
proof -
  have e: "\<bar>dt - d\<bar> \<le> 1 / 10 ^ 12" using d const_bounds(3) by linarith
  have dt: "1 / 1000 \<le> \<bar>dt\<bar>" using g const_bounds(1) by linarith
  then have dt0: "dt \<noteq> 0" by auto
  have "1 / 1000 - 1 / 10 ^ 12 \<le> \<bar>d\<bar>" using dt abs_near(2)[OF e] by linarith
  moreover have "(1 / 2000 :: real) \<le> 1 / 1000 - 1 / 10 ^ 12" by simp
  ultimately have dd: "1 / 2000 \<le> \<bar>d\<bar>" by linarith
  have k: "(0::real) < 1 / 2000" by simp
  have n': "\<bar>n - nt\<bar> \<le> 8323 / 2 ^ 53" using n by (simp add: abs_minus_commute)
  have d': "\<bar>d - dt\<bar> \<le> 8323 / 2 ^ 53" using d by (simp add: abs_minus_commute)
  have q: "\<bar>n / d - nt / dt\<bar> \<le> (8323 / 2 ^ 53) * (1 + \<bar>nt / dt\<bar>) / (1 / 2000)"
    by (rule quot_close[OF n' d' k dd dt0])
  have l: "1 / 20 < nt / dt"
  proof (rule ccontr)
    assume "\<not> 1 / 20 < nt / dt"
    then have "nt / dt \<le> 1 / 20" by simp
    then have "fl (nt / dt) \<le> fl (1 / 20)" by (rule fl_mono)
    with lo const_bounds(8) show False by simp
  qed
  have h: "nt / dt < fl (1 - fl 0.05)"
  proof (rule ccontr)
    assume "\<not> nt / dt < fl (1 - fl 0.05)"
    then have "fl (1 - fl 0.05) \<le> nt / dt" by simp
    then have "fl (fl (1 - fl 0.05)) \<le> fl (nt / dt)" by (rule fl_mono)
    with hi const_bounds(6) show False by simp
  qed
  have h': "nt / dt < 19 / 20" using h const_bounds(7) by linarith
  have "1 / 20 \<le> nt / dt" "nt / dt \<le> 19 / 20" using l h' by linarith+
  then have "\<bar>nt / dt\<bar> \<le> 1" by (rule abs_le_one) simp_all
  then have "(8323 / 2 ^ 53) * (1 + \<bar>nt / dt\<bar>) \<le> (1 / 10 ^ 12) * 2"
    using const_bounds(3) by (intro mult_mono) simp_all
  then have "(8323 / 2 ^ 53) * (1 + \<bar>nt / dt\<bar>) / (1 / 2000) \<le> (1 / 10 ^ 12) * 2 / (1 / 2000)"
    by (rule divide_right_mono) simp
  with q have c: "\<bar>n / d - nt / dt\<bar> \<le> 4 / 10 ^ 9" by simp
  have m: "(1 / 20 - 1 / 10 ^ 8 :: real) < 1 / 20 - 4 / 10 ^ 9"
    "(19 / 20 + 4 / 10 ^ 9 :: real) < 19 / 20 + 1 / 10 ^ 8" by simp_all
  from near_bounds[OF c] l h' m show ?thesis by linarith
qed

lemma doIntersect_near_parallel:
  assumes "inBox a" "inBox b" "inBox c" "inBox d"
    and "\<bar>det4 a b c d\<bar> \<le> 0.001 - 1 / 10 ^ 11"
  shows "\<not> doIntersect a b c d"
proof -
  from assms(5) have "\<bar>det4 a b c d\<bar> \<le> 1 / 1000 - 1 / 10 ^ 11" by simp
  from stable_guard(2)[OF computed_inBox(2)[OF assms(1-4)] this]
  show ?thesis unfolding doIntersect_inBox[OF assms(1-4)] by simp
qed

lemma doIntersect_inside:
  assumes "inBox a" "inBox b" "inBox c" "inBox d"
    and "0.001 + 1 / 10 ^ 11 \<le> \<bar>det4 a b c d\<bar>"
    and "0.05 + 1 / 10 ^ 8 \<le> lambda4 a b c d" "lambda4 a b c d \<le> 0.95 - 1 / 10 ^ 8"
    and "0.05 + 1 / 10 ^ 8 \<le> gamma4 a b c d" "gamma4 a b c d \<le> 0.95 - 1 / 10 ^ 8"
  shows "doIntersect a b c d"
proof -
  note c = computed_inBox[OF assms(1-4)]
  have big: "1 / 1000 + 1 / 10 ^ 11 \<le> \<bar>det4 a b c d\<bar>" using assms(5) by simp
  have l: "1 / 20 + 1 / 10 ^ 8 \<le> numL4 a b c d / det4 a b c d"
    "numL4 a b c d / det4 a b c d \<le> 19 / 20 - 1 / 10 ^ 8"
    using assms(6,7) by (simp_all add: lambda4_def numL4_def)
  have g: "1 / 20 + 1 / 10 ^ 8 \<le> numG4 a b c d / det4 a b c d"
    "numG4 a b c d / det4 a b c d \<le> 19 / 20 - 1 / 10 ^ 8"
    using assms(8,9) by (simp_all add: gamma4_def numG4_def)
  from stable_guard(1)[OF c(2) big] stable_inside[OF c(3) c(2) big l]
    stable_inside[OF c(4) c(2) big g]
  show ?thesis unfolding doIntersect_inBox[OF assms(1-4)] by blast
qed

lemma doIntersect_outside:
  assumes "inBox a" "inBox b" "inBox c" "inBox d" and "doIntersect a b c d"
  shows "0.001 - 1 / 10 ^ 11 < \<bar>det4 a b c d\<bar>"
    and "0.05 - 1 / 10 ^ 8 < lambda4 a b c d" "lambda4 a b c d < 0.95 + 1 / 10 ^ 8"
    and "0.05 - 1 / 10 ^ 8 < gamma4 a b c d" "gamma4 a b c d < 0.95 + 1 / 10 ^ 8"
proof -
  note c = computed_inBox[OF assms(1-4)]
  from assms(5) have t: "\<not> \<bar>detF a b c d\<bar> < fl 0.001"
    "fl 0.05 < fl (numLF a b c d / detF a b c d)"
    "fl (numLF a b c d / detF a b c d) < fl (1 - fl 0.05)"
    "fl 0.05 < fl (numGF a b c d / detF a b c d)"
    "fl (numGF a b c d / detF a b c d) < fl (1 - fl 0.05)"
    unfolding doIntersect_inBox[OF assms(1-4)] by blast+
  from stable_guard(3)[OF c(2) t(1)] show "0.001 - 1 / 10 ^ 11 < \<bar>det4 a b c d\<bar>" by simp
  from stable_outside[OF c(3) c(2) t(1,2,3)]
  show "0.05 - 1 / 10 ^ 8 < lambda4 a b c d" "lambda4 a b c d < 0.95 + 1 / 10 ^ 8"
    by (simp_all add: lambda4_def numL4_def)
  from stable_outside[OF c(4) c(2) t(1,4,5)]
  show "0.05 - 1 / 10 ^ 8 < gamma4 a b c d" "gamma4 a b c d < 0.95 + 1 / 10 ^ 8"
    by (simp_all add: gamma4_def numG4_def)
qed


lemma ddiv_zero_unreached:
  "\<not> dless (dabs det) (toDouble 0.001) \<Longrightarrow> det \<noteq> Finite 0"
  unfolding const_doubles(1) using const_bounds(1) by (cases det) auto

subsection \<open>The exact determinant and parameters\<close>

text \<open>A regular 2x2 linear system has one solution, given by the quotients of determinants.\<close>

lemma cramer_unique:
  fixes ux uy wx wy ex ey lam gam :: real
  assumes det: "ux * wy' - uy * wx' \<noteq> 0"
    and e1: "lam * ux + gam * wx' = ex"
    and e2: "lam * uy + gam * wy' = ey"
  shows "lam = (wy' * ex - wx' * ey) / (ux * wy' - uy * wx')"
    and "gam = (ux * ey - uy * ex) / (ux * wy' - uy * wx')"
proof -
  have "lam * (ux * wy' - uy * wx') = wy' * ex - wx' * ey"
    unfolding e1[symmetric] e2[symmetric] by (simp add: algebra_simps)
  then show "lam = (wy' * ex - wx' * ey) / (ux * wy' - uy * wx')"
    using det by (simp add: field_simps)
  have "gam * (ux * wy' - uy * wx') = ux * ey - uy * ex"
    unfolding e1[symmetric] e2[symmetric] by (simp add: algebra_simps)
  then show "gam = (ux * ey - uy * ex) / (ux * wy' - uy * wx')"
    using det by (simp add: field_simps)
qed

lemma solves_params:
  assumes "det4 a b c d \<noteq> 0"
  shows "solves a b c d (lambda4 a b c d) (gamma4 a b c d)"
  using assms unfolding solves_def lambda4_def gamma4_def numL4_def numG4_def det4_def
  by (simp add: field_simps)

lemma solves_unique:
  assumes nz: "det4 a b c d \<noteq> 0" and s: "solves a b c d lam gam"
  shows "lam = lambda4 a b c d" and "gam = gamma4 a b c d"
proof -
  have d': "(vx b - vx a) * (vy d - vy c) - (vy b - vy a) * (vx d - vx c) \<noteq> 0"
    using nz by (simp add: det4_def)
  have 1: "lam * (vx b - vx a) + gam * (vx d - vx c) = vx d - vx a"
    using s by (simp add: solves_def algebra_simps)
  have 2: "lam * (vy b - vy a) + gam * (vy d - vy c) = vy d - vy a"
    using s by (simp add: solves_def algebra_simps)
  from cramer_unique[OF d' 1 2]
  show "lam = lambda4 a b c d" and "gam = gamma4 a b c d"
    unfolding lambda4_def gamma4_def numL4_def numG4_def det4_def
    by (simp_all add: algebra_simps)
qed

lemma det4_swap: "det4 c d a b = - det4 a b c d"
  by (simp add: det4_def algebra_simps)

lemma params_swap:
  assumes "det4 a b c d \<noteq> 0"
  shows "lambda4 c d a b = 1 - gamma4 a b c d" and "gamma4 c d a b = 1 - lambda4 a b c d"
  using assms unfolding lambda4_def gamma4_def numL4_def numG4_def det4_def
  by (simp_all add: field_simps)

subsection \<open>Symmetry away from the thresholds\<close>

lemma outside_not_intersect:
  assumes "inBox a" "inBox b" "inBox c" "inBox d"
    and "lambda4 a b c d \<le> 0.05 - 1 / 10 ^ 8 \<or> 0.95 + 1 / 10 ^ 8 \<le> lambda4 a b c d
         \<or> gamma4 a b c d \<le> 0.05 - 1 / 10 ^ 8 \<or> 0.95 + 1 / 10 ^ 8 \<le> gamma4 a b c d"
  shows "\<not> doIntersect a b c d"
proof
  assume "doIntersect a b c d"
  from doIntersect_outside(2-5)[OF assms(1-4) this] assms(5) show False by linarith
qed

lemma clearOf_cases:
  assumes "clearOf t"
  shows "t \<le> 0.05 - 1 / 10 ^ 8 \<or> (0.05 + 1 / 10 ^ 8 \<le> t \<and> t \<le> 0.95 - 1 / 10 ^ 8)
         \<or> 0.95 + 1 / 10 ^ 8 \<le> t"
  using assms unfolding clearOf_def by linarith

lemma doIntersect_swap_clear:
  assumes box: "inBox a" "inBox b" "inBox c" "inBox d"
    and clear: "clearOfThresholds a b c d"
  shows "doIntersect c d a b = doIntersect a b c d"
proof -
  from clear consider (small) "\<bar>det4 a b c d\<bar> \<le> 0.001 - 1 / 10 ^ 11"
    | (big) "0.001 + 1 / 10 ^ 11 \<le> \<bar>det4 a b c d\<bar>" "clearOf (lambda4 a b c d)"
        "clearOf (gamma4 a b c d)"
    unfolding clearOfThresholds_def by blast
  then show ?thesis
  proof cases
    case small
    then have "\<bar>det4 c d a b\<bar> \<le> 0.001 - 1 / 10 ^ 11"
      unfolding det4_swap[of a b c d] by simp
    from doIntersect_near_parallel[OF box(3,4,1,2) this]
      doIntersect_near_parallel[OF box small]
    show ?thesis by simp
  next
    case big
    have "(0::real) < 0.001 + 1 / 10 ^ 11" by simp
    with big(1) have nz: "det4 a b c d \<noteq> 0" by auto
    note sw = params_swap[OF nz]
    have big': "0.001 + 1 / 10 ^ 11 \<le> \<bar>det4 c d a b\<bar>"
      using big(1) unfolding det4_swap[of a b c d] by simp
    define l where "l = lambda4 a b c d"
    define g where "g = gamma4 a b c d"
    show ?thesis
    proof (cases "(0.05 + 1 / 10 ^ 8 \<le> l \<and> l \<le> 0.95 - 1 / 10 ^ 8)
                  \<and> (0.05 + 1 / 10 ^ 8 \<le> g \<and> g \<le> 0.95 - 1 / 10 ^ 8)")
      case True
      then have i: "0.05 + 1 / 10 ^ 8 \<le> l" "l \<le> 0.95 - 1 / 10 ^ 8"
        "0.05 + 1 / 10 ^ 8 \<le> g" "g \<le> 0.95 - 1 / 10 ^ 8" by simp_all
      have 1: "doIntersect a b c d"
        using box big(1) i unfolding l_def g_def by (rule doIntersect_inside)
      have j: "0.05 + 1 / 10 ^ 8 \<le> 1 - g" "1 - g \<le> 0.95 - 1 / 10 ^ 8"
        "0.05 + 1 / 10 ^ 8 \<le> 1 - l" "1 - l \<le> 0.95 - 1 / 10 ^ 8" using i by simp_all
      have 2: "doIntersect c d a b"
        using box(3,4,1,2) big' j unfolding l_def g_def sw[symmetric]
        by (rule doIntersect_inside)
      from 1 2 show ?thesis by simp
    next
      case False
      with clearOf_cases[OF big(2)] clearOf_cases[OF big(3)]
      have o: "l \<le> 0.05 - 1 / 10 ^ 8 \<or> 0.95 + 1 / 10 ^ 8 \<le> l
         \<or> g \<le> 0.05 - 1 / 10 ^ 8 \<or> 0.95 + 1 / 10 ^ 8 \<le> g"
        unfolding l_def g_def by linarith
      have 1: "\<not> doIntersect a b c d"
        using box o unfolding l_def g_def by (rule outside_not_intersect)
      from o have o': "1 - g \<le> 0.05 - 1 / 10 ^ 8 \<or> 0.95 + 1 / 10 ^ 8 \<le> 1 - g
         \<or> 1 - l \<le> 0.05 - 1 / 10 ^ 8 \<or> 0.95 + 1 / 10 ^ 8 \<le> 1 - l"
        by simp linarith
      have 2: "\<not> doIntersect c d a b"
        using box(3,4,1,2) o' unfolding l_def g_def sw[symmetric]
        by (rule outside_not_intersect)
      from 1 2 show ?thesis by simp
    qed
  qed
qed

lemma clearOfThresholds_swap:
  "clearOfThresholds c d a b = clearOfThresholds a b c d"
proof (cases "det4 a b c d = 0")
  case True
  then show ?thesis unfolding clearOfThresholds_def det4_swap[of a b c d] by simp
next
  case False
  have c: "clearOf (1 - t) = clearOf t" for t :: real
  proof -
    have "1 - t - 0.05 = - (t - 0.95)" "1 - t - 0.95 = - (t - 0.05)" by simp_all
    then show ?thesis unfolding clearOf_def by (simp only: abs_minus) blast
  qed
  show ?thesis unfolding clearOfThresholds_def det4_swap[of a b c d] params_swap[OF False] c
    by auto
qed

section \<open>Facts about the evaluation and the pointer events\<close>

lemma pairStep_crosses:
  "pairStep s ki kj t = (if crosses s ki kj then insert kj (insert ki t) else t)"
  unfolding pairStep_def crosses_def by (auto split: option.splits)

lemma innerLoop_mem:
  "k \<in> innerLoop s ki ks t \<Longrightarrow>
     k \<in> t \<or> (\<exists>kj \<in> set ks. crosses s ki kj \<and> (k = ki \<or> k = kj))"
proof (induction ks arbitrary: t)
  case Nil
  then show ?case by simp
next
  case (Cons kj ks)
  from Cons.prems have "k \<in> innerLoop s ki ks (pairStep s ki kj t)" by simp
  from Cons.IH[OF this] show ?case
    by (auto simp: pairStep_crosses split: if_splits)
qed

lemma outerLoop_mem:
  "k \<in> outerLoop s ks t \<Longrightarrow>
     k \<in> t \<or> (\<exists>ki \<in> set ks. \<exists>kj \<in> set ks. crosses s ki kj \<and> (k = ki \<or> k = kj))"
proof (induction ks arbitrary: t)
  case Nil
  then show ?case by simp
next
  case (Cons ki ks)
  from Cons.prems have "k \<in> outerLoop s ks (innerLoop s ki ks t)" by simp
  from Cons.IH[OF this] show ?case
  proof
    assume "k \<in> innerLoop s ki ks t"
    from innerLoop_mem[OF this] show ?thesis by auto
  next
    assume "\<exists>ki \<in> set ks. \<exists>kj \<in> set ks. crosses s ki kj \<and> (k = ki \<or> k = kj)"
    then show ?thesis by auto
  qed
qed

lemma tangledIdsOf_mem:
  assumes "k \<in> tangledIdsOf s"
  shows "\<exists>ki \<in> set (map fst (ropes_s s)). \<exists>kj \<in> set (map fst (ropes_s s)).
           crosses s ki kj \<and> (k = ki \<or> k = kj)"
  using outerLoop_mem[OF assms[unfolded tangledIdsOf_def]] by simp

lemma tangledIdsOf_keys: "tangledIdsOf s \<subseteq> set (map fst (ropes_s s))"
  using tangledIdsOf_mem by blast

lemma pairStep_adjacent:
  assumes "map_of (ropes_s s) ki = Some r1" "map_of (ropes_s s) kj = Some r2"
    "sharesEndpoint r1 r2"
  shows "pairStep (s\<lparr>pins := P\<rparr>) ki kj t = t"
  using assms by (simp add: pairStep_def)

lemma doIntersect_z:
  "doIntersect (a\<lparr>vz := z1\<rparr>) (b\<lparr>vz := z2\<rparr>) (c\<lparr>vz := z3\<rparr>) (d\<lparr>vz := z4\<rparr>) = doIntersect a b c d"
  by (simp add: doIntersect_def)

lemma mapSet_keys: "k \<in> set (map fst al) \<Longrightarrow> map fst (mapSet k v al) = map fst al"
  by (induction al) force+

lemma map_of_key: "map_of al k = Some v \<Longrightarrow> k \<in> set (map fst al)"
  by (metis map_of_eq_None_iff option.distinct(1) set_map)

lemma updateRopeMesh_keys:
  assumes "map_of (ropes_s s) rid = Some r"
  shows "map fst (ropes_s (updateRopeMesh rid f s)) = map fst (ropes_s s)"
proof -
  have k: "rid \<in> set (map fst (ropes_s s))" using assms by (rule map_of_key)
  define rs1 where "rs1 = mapSet rid (r\<lparr>tangled := f\<rparr>) (ropes_s s)"
  have 1: "map fst rs1 = map fst (ropes_s s)" unfolding rs1_def using k by (rule mapSet_keys)
  then have 2: "map fst (mapSet rid v rs1) = map fst (ropes_s s)" for v
    using k mapSet_keys[of rid rs1 v] by simp
  show ?thesis
    unfolding updateRopeMesh_def Let_def using assms 1 2
    by (simp add: rs1_def split: option.splits)
qed

lemma refreshRope_keys: "map fst (ropes_s (refreshRope t rid s)) = map fst (ropes_s s)"
  unfolding refreshRope_def by (simp add: updateRopeMesh_keys split: option.splits)

lemma fold_refreshRope_keys:
  "map fst (ropes_s (fold (refreshRope t) ks s)) = map fst (ropes_s s)"
  by (induction ks arbitrary: s) (simp_all add: refreshRope_keys)

lemma checkIntersections_keys:
  "map fst (ropes_s (fst (checkIntersections s))) = map fst (ropes_s s)"
  by (simp add: checkIntersections_def Let_def fold_refreshRope_keys)

lemma updateRopeMesh_other:
  "isComplete (updateRopeMesh rid f s) = isComplete s \<and> pins (updateRopeMesh rid f s) = pins s
   \<and> initialized (updateRopeMesh rid f s) = initialized s"
  unfolding updateRopeMesh_def Let_def by (simp split: option.splits)

lemma refreshRope_other:
  "isComplete (refreshRope t rid s) = isComplete s \<and> pins (refreshRope t rid s) = pins s
   \<and> initialized (refreshRope t rid s) = initialized s"
  unfolding refreshRope_def by (simp add: updateRopeMesh_other split: option.splits)

lemma fold_refreshRope_other:
  "isComplete (fold (refreshRope t) ks s) = isComplete s
   \<and> pins (fold (refreshRope t) ks s) = pins s
   \<and> initialized (fold (refreshRope t) ks s) = initialized s"
  by (induction ks arbitrary: s) (simp_all add: refreshRope_other)

lemma checkIntersections_other:
  "isComplete (fst (checkIntersections s)) = isComplete s
   \<and> pins (fst (checkIntersections s)) = pins s
   \<and> initialized (fst (checkIntersections s)) = initialized s"
  by (simp add: checkIntersections_def Let_def fold_refreshRope_other)

lemma checkWinCondition_solved:
  assumes "initialized s" "\<not> isComplete s"
  shows "isComplete (checkWinCondition s) \<longleftrightarrow> ropes_s s \<noteq> [] \<and> tangledIdsOf s = {}"
proof -
  have e: "ropes_s (fst (checkIntersections s)) = [] \<longleftrightarrow> ropes_s s = []"
    using checkIntersections_keys[of s] by (metis map_is_Nil_conv)
  have r: "snd (checkIntersections s) = (tangledIdsOf s = {})"
    by (simp add: checkIntersections_def Let_def)
  show ?thesis
    unfolding checkWinCondition_def Let_def using assms e r
    by (simp add: checkIntersections_other)
qed

lemma handle_complete:
  assumes "isComplete s"
  shows "handle e s = s \<or> handle e s = s\<lparr>selectedPointId := None\<rparr>"
proof (cases e)
  case (PointerDown target hit)
  with assms show ?thesis by (simp add: onPointerDown_def)
next
  case (PointerMove hit)
  with assms show ?thesis by (simp add: onPointerMove_def)
next
  case PointerUp
  with assms show ?thesis by (simp add: onPointerUp_def checkWinCondition_def)
qed

lemma run_complete:
  assumes "isComplete s"
  shows "isComplete (run es s) \<and> pins (run es s) = pins s \<and> ropes_s (run es s) = ropes_s s"
  using assms
proof (induction es arbitrary: s)
  case Nil
  then show ?case by (simp add: run_def)
next
  case (Cons e es)
  from handle_complete[OF Cons.prems, of e]
  have h: "isComplete (handle e s) \<and> pins (handle e s) = pins s
           \<and> ropes_s (handle e s) = ropes_s s"
    using Cons.prems by auto
  then have "isComplete (handle e s)" by simp
  from Cons.IH[OF this] h show ?case by (simp add: run_def)
qed

lemma map_of_mapSet: "map_of (mapSet k v al) = (map_of al)(k \<mapsto> v)"
  by (induction al) (auto simp: fun_eq_iff)

lemma updateRopeMesh_lookup:
  assumes "map_of (ropes_s s) rid = Some r"
  shows "\<exists>r'. tangled r' = f
     \<and> map_of (ropes_s (updateRopeMesh rid f s)) = (map_of (ropes_s s))(rid \<mapsto> r')"
proof -
  define rData where "rData = (case levelData s of None \<Rightarrow> None
     | Some ld \<Rightarrow> find (\<lambda>r. id_r r = rid) (ropes ld))"
  show ?thesis
  proof (cases rData)
    case None
    then have "map_of (ropes_s (updateRopeMesh rid f s))
        = (map_of (ropes_s s))(rid \<mapsto> r\<lparr>tangled := f\<rparr>)"
      using assms unfolding updateRopeMesh_def Let_def rData_def[symmetric]
      by (simp add: map_of_mapSet)
    moreover have "tangled (r\<lparr>tangled := f\<rparr>) = f" by simp
    ultimately show ?thesis by blast
  next
    case (Some x)
    then have "map_of (ropes_s (updateRopeMesh rid f s))
        = (map_of (ropes_s s))(rid \<mapsto> \<lparr>p1 = p1_r x, p2 = p2_r x, tangled = f\<rparr>)"
      using assms unfolding updateRopeMesh_def Let_def rData_def[symmetric]
      by (simp add: map_of_mapSet)
    moreover have "tangled \<lparr>p1 = p1_r x, p2 = p2_r x, tangled = f\<rparr> = f" by simp
    ultimately show ?thesis by blast
  qed
qed

lemma refreshRope_lookup_other:
  "k \<noteq> rid \<Longrightarrow> map_of (ropes_s (refreshRope t rid s)) k = map_of (ropes_s s) k"
proof (cases "map_of (ropes_s s) rid")
  case None
  then show ?thesis by (simp add: refreshRope_def)
next
  case (Some r)
  assume "k \<noteq> rid"
  with updateRopeMesh_lookup[OF Some, of "rid \<in> t"] show ?thesis
    unfolding refreshRope_def using Some by (auto split: option.splits)
qed

lemma refreshRope_lookup_fresh:
  assumes "map_of (ropes_s s) rid = Some r" "pins s (p1 r) \<noteq> None" "pins s (p2 r) \<noteq> None"
  shows "\<exists>r'. map_of (ropes_s (refreshRope t rid s)) rid = Some r' \<and> tangled r' = (rid \<in> t)"
  using updateRopeMesh_lookup[OF assms(1), of "rid \<in> t"] assms
  unfolding refreshRope_def by (auto split: option.splits)

lemma refreshRope_lookup_flagged:
  assumes "map_of (ropes_s s) rid = Some r" "tangled r = (rid \<in> t)"
  shows "\<exists>r'. map_of (ropes_s (refreshRope t rid s)) rid = Some r' \<and> tangled r' = (rid \<in> t)"
  using updateRopeMesh_lookup[OF assms(1), of "rid \<in> t"] assms
  unfolding refreshRope_def by (auto split: option.splits)

lemma fold_refreshRope_flags:
  assumes pp: "pinsPresent s" and keys: "set ks \<subseteq> set (map fst (ropes_s s))"
  shows "\<forall>k. (k \<notin> set ks \<and> map_of (ropes_s (fold (refreshRope t) ks s)) k = map_of (ropes_s s) k)
            \<or> (\<exists>r. map_of (ropes_s (fold (refreshRope t) ks s)) k = Some r
                    \<and> tangled r = (k \<in> t))"
  using keys
proof (induction ks rule: rev_induct)
  case Nil
  show ?case by simp
next
  case (snoc rid ks)
  define s' where "s' = fold (refreshRope t) ks s"
  have IH: "(k \<notin> set ks \<and> map_of (ropes_s s') k = map_of (ropes_s s) k)
            \<or> (\<exists>r. map_of (ropes_s s') k = Some r \<and> tangled r = (k \<in> t))" for k
    using snoc unfolding s'_def by simp
  have pins: "pins s' = pins s" unfolding s'_def by (simp add: fold_refreshRope_other)
  have key: "rid \<in> set (map fst (ropes_s s))" using snoc.prems by simp
  then obtain r0 where r0: "map_of (ropes_s s) rid = Some r0"
    by (metis map_of_eq_None_iff not_Some_eq set_map)
  have step: "fold (refreshRope t) (ks @ [rid]) s = refreshRope t rid s'"
    by (simp add: s'_def)
  have own: "\<exists>r. map_of (ropes_s (refreshRope t rid s')) rid = Some r \<and> tangled r = (rid \<in> t)"
  proof -
    from IH[of rid] show ?thesis
    proof
      assume "rid \<notin> set ks \<and> map_of (ropes_s s') rid = map_of (ropes_s s) rid"
      then have e: "map_of (ropes_s s') rid = Some r0" using r0 by simp
      have "(rid, r0) \<in> set (ropes_s s)" using r0 by (rule map_of_SomeD)
      then have "pins s' (p1 r0) \<noteq> None" "pins s' (p2 r0) \<noteq> None"
        using pp pins unfolding pinsPresent_def by auto
      with e show ?thesis by (rule refreshRope_lookup_fresh)
    next
      assume "\<exists>r. map_of (ropes_s s') rid = Some r \<and> tangled r = (rid \<in> t)"
      then show ?thesis using refreshRope_lookup_flagged by blast
    qed
  qed
  show ?case unfolding step
  proof
    fix k
    show "(k \<notin> set (ks @ [rid])
            \<and> map_of (ropes_s (refreshRope t rid s')) k = map_of (ropes_s s) k)
          \<or> (\<exists>r. map_of (ropes_s (refreshRope t rid s')) k = Some r \<and> tangled r = (k \<in> t))"
    proof (cases "k = rid")
      case True
      with own show ?thesis by simp
    next
      case False
      then have "map_of (ropes_s (refreshRope t rid s')) k = map_of (ropes_s s') k"
        by (rule refreshRope_lookup_other)
      with IH[of k] False show ?thesis by auto
    qed
  qed
qed

lemma checkIntersections_flags:
  assumes "pinsPresent s" "distinct (map fst (ropes_s s))"
    "(k, r) \<in> set (ropes_s (fst (checkIntersections s)))"
  shows "tangled r = (k \<in> tangledIdsOf s)"
proof -
  define s' where "s' = fst (checkIntersections s)"
  have keys: "map fst (ropes_s s') = map fst (ropes_s s)"
    unfolding s'_def by (rule checkIntersections_keys)
  then have "distinct (map fst (ropes_s s'))" using assms(2) by simp
  with assms(3) have look: "map_of (ropes_s s') k = Some r" unfolding s'_def by simp
  have k: "k \<in> set (map fst (ropes_s s))"
    using assms(3) keys unfolding s'_def by (metis fst_conv image_eqI set_map)
  have s'': "s' = fold (refreshRope (tangledIdsOf s)) (map fst (ropes_s s)) s"
    unfolding s'_def by (simp add: checkIntersections_def Let_def)
  from fold_refreshRope_flags[OF assms(1) subset_refl, of "tangledIdsOf s"] k look
  show ?thesis unfolding s''[symmetric] by auto
qed

section \<open>Concrete runs\<close>

lemma sample_draws:
  "fl (1 / 8) = 1 / 8" "fl (2 / 8) = 2 / 8" "fl (3 / 8) = 3 / 8" "fl (4 / 8) = 4 / 8"
  "fl (5 / 8) = 5 / 8" "fl (6 / 8) = 6 / 8" "fl (7 / 8) = 7 / 8"
  by (simp_all add: fl_eval)

lemma validRandom_sample: "validRandom sampleRandom"
  unfolding validRandom_def sampleRandom_def
proof
  fix n :: nat
  have "n mod 8 < 8" by simp
  then have "n mod 8 = 0 \<or> n mod 8 = 1 \<or> n mod 8 = 2 \<or> n mod 8 = 3 \<or> n mod 8 = 4
             \<or> n mod 8 = 5 \<or> n mod 8 = 6 \<or> n mod 8 = 7" by linarith
  then show "fl (real (n mod 8) / 8) = real (n mod 8) / 8
             \<and> 0 \<le> real (n mod 8) / 8 \<and> real (n mod 8) / 8 < 1"
    using sample_draws by (elim disjE) simp_all
qed

lemmas generator_unfold = allRopes_def pointCount_def extraRopes_def connectionDensity_def
  scrambleCount_def ringRopes_def chordStep_def chordNode_def chordOffset_def addRope_def
  ropeKey_def numStr_def digits.simps digitChar_def jsRem_def sampleRandom_def fl_eval

lemmas scene_unfold = squareLevel_def startLevel_def emptyState_def addPin_def
  addRopeMesh_def checkIntersections_def tangledIdsOf_def pairStep_def sharesEndpoint_def
  doIntersect_def refreshRope_def updateRopeMesh_def Let_def run_def onPointerDown_def
  onPointerMove_def onPointerUp_def checkWinCondition_def falsy_def clamp_def vec_def
  double_eval

lemma squareScene_value:
  "squareScene =
     \<lparr>selectedPointId = None, dragOffset = \<lparr>vx = 0, vy = 0, vz = 0\<rparr>,
      pins = [''p0'' \<mapsto> \<lparr>vx = 0, vy = 0, vz = 0\<rparr>, ''p1'' \<mapsto> \<lparr>vx = 4, vy = 0, vz = 0\<rparr>,
              ''p2'' \<mapsto> \<lparr>vx = 4, vy = 4, vz = 0\<rparr>, ''p3'' \<mapsto> \<lparr>vx = 0, vy = 4, vz = 0\<rparr>],
      ropes_s = [(''r0'', \<lparr>p1 = ''p0'', p2 = ''p2'', tangled = True\<rparr>),
                 (''r1'', \<lparr>p1 = ''p1'', p2 = ''p3'', tangled = True\<rparr>),
                 (''r2'', \<lparr>p1 = ''p0'', p2 = ''p1'', tangled = False\<rparr>)],
      levelData = Some squareLevel, isComplete = False, initialized = True\<rparr>"
  unfolding squareScene_def by (simp add: scene_unfold)

lemma draggedScene_value:
  "draggedScene =
     \<lparr>selectedPointId = Some ''p2'', dragOffset = \<lparr>vx = 0, vy = 0, vz = 0\<rparr>,
      pins = [''p0'' \<mapsto> \<lparr>vx = 0, vy = 0, vz = 0\<rparr>, ''p1'' \<mapsto> \<lparr>vx = 4, vy = 0, vz = 0\<rparr>,
              ''p3'' \<mapsto> \<lparr>vx = 0, vy = 4, vz = 0\<rparr>, ''p2'' \<mapsto> \<lparr>vx = 1, vy = 1, vz = 0\<rparr>],
      ropes_s = [(''r0'', \<lparr>p1 = ''p0'', p2 = ''p2'', tangled = False\<rparr>),
                 (''r1'', \<lparr>p1 = ''p1'', p2 = ''p3'', tangled = False\<rparr>),
                 (''r2'', \<lparr>p1 = ''p0'', p2 = ''p1'', tangled = False\<rparr>)],
      levelData = Some squareLevel, isComplete = False, initialized = True\<rparr>"
  unfolding draggedScene_def squareScene_value by (simp add: scene_unfold)

lemma solvedScene_value:
  "solvedScene = draggedScene\<lparr>selectedPointId := None, isComplete := True\<rparr>"
  unfolding solvedScene_def draggedScene_value by (simp add: scene_unfold)

lemma squareScene_tangled: "tangledIdsOf squareScene = {''r0'', ''r1''}"
  unfolding squareScene_value
  by (simp add: tangledIdsOf_def pairStep_def sharesEndpoint_def doIntersect_def double_eval
        insert_commute)

lemma draggedScene_tangled: "tangledIdsOf draggedScene = {}"
  unfolding draggedScene_value
  by (simp add: tangledIdsOf_def pairStep_def sharesEndpoint_def doIntersect_def double_eval)

text \<open>The four pins at the upper threshold, and two plain configurations.\<close>

lemmas near_unfold = nearA_def nearB_def nearC_def nearD_def vec_def

lemma near_inBox: "inBox nearA" "inBox nearB" "inBox nearC" "inBox nearD"
  by (simp_all add: inBox_def near_unfold fl_eval)

lemma near_test:
  "doIntersect nearA nearB nearC nearD" "\<not> doIntersect nearC nearD nearA nearB"
  by (simp_all add: doIntersect_def near_unfold double_eval)

lemma near_computed:
  "detD nearA nearB nearC nearD = Finite (- 24)"
  "lambdaD nearA nearB nearC nearD = Finite (1 / 2)"
  "gammaD nearA nearB nearC nearD = Finite (8556839292003941 / 9007199254740992)"
  "detD nearC nearD nearA nearB = Finite 24"
  "lambdaD nearC nearD nearA nearB = Finite (7205759403792789 / 144115188075855872)"
  "gammaD nearC nearD nearA nearB = Finite (1 / 2)"
  by (simp_all add: detD_def lambdaD_def gammaD_def near_unfold double_eval)

lemma threshold_doubles:
  "toDouble 0.001 = Finite (1152921504606847 / 1152921504606846976)"
  "toDouble 0.05 = Finite (3602879701896397 / 72057594037927936)"
  "dsub (Finite 1) (toDouble 0.05) = Finite (4278419646001971 / 4503599627370496)"
  by (simp_all add: double_eval)

lemma near_exact:
  "det4 nearA nearB nearC nearD = - 24"
  "lambda4 nearA nearB nearC nearD = 1 / 2"
  "gamma4 nearA nearB nearC nearD = 17113678584007885 / 18014398509481984"
  by (simp_all add: det4_def lambda4_def gamma4_def numL4_def numG4_def near_unfold fl_eval)

lemma diagonals_inBox: "inBox (vec 0 0)" "inBox (vec 4 4)" "inBox (vec 4 0)" "inBox (vec 0 4)"
  "inBox (vec 1 1)" "inBox (vec 0 1)" "inBox (vec 4 1)"
  by (simp_all add: inBox_def vec_def)

lemma diagonals_exact:
  "det4 (vec 0 0) (vec 4 4) (vec 4 0) (vec 0 4) = 32"
  "lambda4 (vec 0 0) (vec 4 4) (vec 4 0) (vec 0 4) = 1 / 2"
  "gamma4 (vec 0 0) (vec 4 4) (vec 4 0) (vec 0 4) = 1 / 2"
  "det4 (vec 0 0) (vec 1 1) (vec 4 0) (vec 0 4) = 8"
  "lambda4 (vec 0 0) (vec 1 1) (vec 4 0) (vec 0 4) = 2"
  "gamma4 (vec 0 0) (vec 1 1) (vec 4 0) (vec 0 4) = 1 / 2"
  "det4 (vec 0 0) (vec 4 0) (vec 0 1) (vec 4 1) = 0"
  by (simp_all add: det4_def lambda4_def gamma4_def numL4_def numG4_def vec_def)

lemma diagonals_test:
  "doIntersect (vec 0 0) (vec 4 4) (vec 4 0) (vec 0 4)"
  "\<not> doIntersect (vec 0 0) (vec 1 1) (vec 4 0) (vec 0 4)"
  "\<not> doIntersect (vec 0 0) (vec 4 0) (vec 0 1) (vec 4 1)"
  "detD (vec 0 0) (vec 4 0) (vec 0 1) (vec 4 1) = Finite 0"
  by (simp_all add: doIntersect_def detD_def vec_def double_eval)

section \<open>The properties\<close>

text \<open>
  C10, as the specification states it: the intersection test gives the same boolean
  for \<open>(a, b, c, d)\<close> and for \<open>(c, d, a, b)\<close>, for all points. This fails in the double
  arithmetic of the code, at pins of the play field: for \<open>a = (1.6, 2)\<close>,
  \<open>b = (0, - 4)\<close>, \<open>c = (1, - 1)\<close>, \<open>d = (- 3, - 1)\<close> the test computes
  \<open>gamma = 0.9499999999999998\<close>, below the double \<open>1 - 0.05\<close>, and answers true; with
  the segments swapped it computes \<open>lambda = 0.04999999999999997\<close>, below the double
  \<open>0.05\<close>, and answers false.
\<close>

theorem doIntersect_asymmetric_counterexample:
  "inBox nearA \<and> inBox nearB \<and> inBox nearC \<and> inBox nearD
   \<and> gammaD nearA nearB nearC nearD = Finite (8556839292003941 / 9007199254740992)
   \<and> dsub (Finite 1) (toDouble 0.05) = Finite (4278419646001971 / 4503599627370496)
   \<and> lambdaD nearC nearD nearA nearB = Finite (7205759403792789 / 144115188075855872)
   \<and> toDouble 0.05 = Finite (3602879701896397 / 72057594037927936)
   \<and> doIntersect nearA nearB nearC nearD
   \<and> \<not> doIntersect nearC nearD nearA nearB
   \<and> doIntersect nearA nearB nearC nearD \<noteq> doIntersect nearC nearD nearA nearB"
proof -
  have ne: "doIntersect nearA nearB nearC nearD \<noteq> doIntersect nearC nearD nearA nearB"
    using near_test by simp
  show ?thesis
    by (intro conjI) (fact near_inBox near_computed(3,5) threshold_doubles(2,3) near_test ne)+
qed

text \<open>
  C10, amended. For all points the determinant that the test computes for
  \<open>(c, d, a, b)\<close> is the negation of the one it computes for \<open>(a, b, c, d)\<close>, so the
  near-parallel guard gives the same answer for both orders. For pins of the play field
  (\<open>|x| \<le> 9\<close>, \<open>|y| \<le> 14\<close>) the whole test gives the same boolean for both orders
  whenever the configuration is clear of the thresholds: the exact determinant is at
  least \<open>10 ^ - 11\<close> away from 0.001 in magnitude and, unless it is below 0.001, both
  exact parameters are at least \<open>10 ^ - 8\<close> away from 0.05 and from 0.95. Being clear of
  the thresholds does not depend on the order of the two segments.
\<close>

theorem doIntersect_symmetric_clear_of_thresholds:
  "detD c d a b = dneg (detD a b c d)
   \<and> dless (dabs (detD c d a b)) (toDouble 0.001)
       = dless (dabs (detD a b c d)) (toDouble 0.001)
   \<and> clearOfThresholds c d a b = clearOfThresholds a b c d
   \<and> (inBox a \<and> inBox b \<and> inBox c \<and> inBox d \<and> clearOfThresholds a b c d
        \<longrightarrow> doIntersect c d a b = doIntersect a b c d)"
proof (intro conjI impI)
  show s: "detD c d a b = dneg (detD a b c d)" by (rule detD_swap)
  show "dless (dabs (detD c d a b)) (toDouble 0.001)
       = dless (dabs (detD a b c d)) (toDouble 0.001)"
    unfolding s by simp
  show "clearOfThresholds c d a b = clearOfThresholds a b c d"
    by (rule clearOfThresholds_swap)
next
  assume h: "inBox a \<and> inBox b \<and> inBox c \<and> inBox d \<and> clearOfThresholds a b c d"
  then have "inBox a" "inBox b" "inBox c" "inBox d" "clearOfThresholds a b c d"
    by simp_all
  then show "doIntersect c d a b = doIntersect a b c d" by (rule doIntersect_swap_clear)
qed

theorem doIntersect_symmetric_clear_of_thresholds_witness:
  "inBox (vec 0 0) \<and> inBox (vec 4 4) \<and> inBox (vec 4 0) \<and> inBox (vec 0 4) \<and> inBox (vec 1 1)
   \<and> clearOfThresholds (vec 0 0) (vec 4 4) (vec 4 0) (vec 0 4)
   \<and> doIntersect (vec 0 0) (vec 4 4) (vec 4 0) (vec 0 4)
   \<and> doIntersect (vec 4 0) (vec 0 4) (vec 0 0) (vec 4 4)
   \<and> clearOfThresholds (vec 0 0) (vec 1 1) (vec 4 0) (vec 0 4)
   \<and> \<not> doIntersect (vec 0 0) (vec 1 1) (vec 4 0) (vec 0 4)
   \<and> \<not> doIntersect (vec 4 0) (vec 0 4) (vec 0 0) (vec 1 1)
   \<and> \<not> clearOfThresholds nearA nearB nearC nearD
   \<and> detD nearC nearD nearA nearB = dneg (detD nearA nearB nearC nearD)"
proof -
  have c1: "clearOfThresholds (vec 0 0) (vec 4 4) (vec 4 0) (vec 0 4)"
    unfolding clearOfThresholds_def clearOf_def diagonals_exact by simp
  have c2: "clearOfThresholds (vec 0 0) (vec 1 1) (vec 4 0) (vec 0 4)"
    unfolding clearOfThresholds_def clearOf_def diagonals_exact by simp
  have c3: "\<not> clearOfThresholds nearA nearB nearC nearD"
    unfolding clearOfThresholds_def clearOf_def near_exact by simp
  note b = diagonals_inBox(1-5)
  from doIntersect_symmetric_clear_of_thresholds
         [of "vec 4 0" "vec 0 4" "vec 0 0" "vec 4 4", THEN conjunct2, THEN conjunct2,
          THEN conjunct2] b c1 diagonals_test(1)
  have 1: "doIntersect (vec 4 0) (vec 0 4) (vec 0 0) (vec 4 4)" by simp
  from doIntersect_symmetric_clear_of_thresholds
         [of "vec 4 0" "vec 0 4" "vec 0 0" "vec 1 1", THEN conjunct2, THEN conjunct2,
          THEN conjunct2] b c2 diagonals_test(2)
  have 2: "\<not> doIntersect (vec 4 0) (vec 0 4) (vec 0 0) (vec 1 1)" by simp
  note 3 = doIntersect_symmetric_clear_of_thresholds
         [of nearC nearD nearA nearB, THEN conjunct1]
  show ?thesis
    by (intro conjI) (fact b c1 c2 c3 diagonals_test(1,2) 1 2 3)+
qed

text \<open>
  C2, as the specification states it: when \<open>|det| \<ge> 0.001\<close> the test reports a crossing
  exactly when the two parameters that solve the linear system of the two lines lie
  strictly inside \<open>(0.05, 0.95)\<close>. This fails in the double arithmetic of the code: for
  the pins \<open>a = (1.6, 2)\<close>, \<open>b = (0, - 4)\<close>, \<open>c = (1, - 1)\<close>, \<open>d = (- 3, - 1)\<close> the
  determinant is \<open>- 24\<close> and the test reports a crossing, while the only solution of the
  system has \<open>gamma\<close> above 0.95 (the double written \<open>1.6\<close> is slightly above 1.6).
\<close>

theorem doIntersect_threshold_counterexample:
  "det4 nearA nearB nearC nearD = - 24
   \<and> \<not> \<bar>det4 nearA nearB nearC nearD\<bar> < 0.001
   \<and> doIntersect nearA nearB nearC nearD
   \<and> solves nearA nearB nearC nearD (lambda4 nearA nearB nearC nearD)
        (gamma4 nearA nearB nearC nearD)
   \<and> lambda4 nearA nearB nearC nearD = 1 / 2
   \<and> 0.95 < gamma4 nearA nearB nearC nearD
   \<and> \<not> (\<exists>lam gam. solves nearA nearB nearC nearD lam gam
            \<and> 0.05 < lam \<and> lam < 0.95 \<and> 0.05 < gam \<and> gam < 0.95)"
proof -
  have nz: "det4 nearA nearB nearC nearD \<noteq> 0" by (simp add: near_exact)
  have g: "\<not> \<bar>det4 nearA nearB nearC nearD\<bar> < 0.001" by (simp add: near_exact)
  have big: "0.95 < gamma4 nearA nearB nearC nearD" by (simp add: near_exact)
  have s: "solves nearA nearB nearC nearD (lambda4 nearA nearB nearC nearD)
        (gamma4 nearA nearB nearC nearD)"
    using nz by (rule solves_params)
  have none: "\<not> (\<exists>lam gam. solves nearA nearB nearC nearD lam gam
            \<and> 0.05 < lam \<and> lam < 0.95 \<and> 0.05 < gam \<and> gam < 0.95)"
  proof
    assume "\<exists>lam gam. solves nearA nearB nearC nearD lam gam
            \<and> 0.05 < lam \<and> lam < 0.95 \<and> 0.05 < gam \<and> gam < 0.95"
    then obtain lam gam where sol: "solves nearA nearB nearC nearD lam gam"
      and lt: "gam < 0.95" by blast
    from solves_unique(2)[OF nz sol] have "gam = gamma4 nearA nearB nearC nearD" .
    with lt big show False by simp
  qed
  show ?thesis
    by (intro conjI) (fact near_exact(1,2) g near_test(1) s big none)+
qed

text \<open>
  C2, amended. The test is a total function to the booleans: a near-zero determinant
  gives the answer "no intersection", not an error. With the determinant and the two
  parameters as the code computes them in double precision, the test reports no
  intersection whenever the computed \<open>|det|\<close> is below the double 0.001, and otherwise
  reports a crossing exactly when both computed parameters lie strictly between the
  double 0.05 and the double \<open>1 - 0.05\<close>. The exact parameters are the one solution of
  the linear system of the two lines when the exact determinant is not zero. For pins
  of the play field (\<open>|x| \<le> 9\<close>, \<open>|y| \<le> 14\<close>) the computed test agrees with the exact
  one up to the rounding at the thresholds: it reports no intersection when the exact
  \<open>|det|\<close> is at most \<open>0.001 - 10 ^ - 11\<close>; it reports a crossing when the exact \<open>|det|\<close>
  is at least \<open>0.001 + 10 ^ - 11\<close> and both exact parameters lie in
  \<open>[0.05 + 10 ^ - 8, 0.95 - 10 ^ - 8]\<close>; and it reports a crossing only if the exact
  \<open>|det|\<close> is above \<open>0.001 - 10 ^ - 11\<close> and both exact parameters lie strictly inside
  \<open>(0.05 - 10 ^ - 8, 0.95 + 10 ^ - 8)\<close>.
\<close>

theorem doIntersect_determinant_and_parameters:
  "(dless (dabs (detD a b c d)) (toDouble 0.001) \<longrightarrow> \<not> doIntersect a b c d)
   \<and> (\<not> dless (dabs (detD a b c d)) (toDouble 0.001) \<longrightarrow>
        (doIntersect a b c d \<longleftrightarrow>
           (dless (toDouble 0.05) (lambdaD a b c d)
              \<and> dless (lambdaD a b c d) (dsub (Finite 1) (toDouble 0.05)))
           \<and> (dless (toDouble 0.05) (gammaD a b c d)
              \<and> dless (gammaD a b c d) (dsub (Finite 1) (toDouble 0.05)))))
   \<and> (det4 a b c d \<noteq> 0 \<longrightarrow>
        (\<forall>lam gam. solves a b c d lam gam
            \<longleftrightarrow> lam = lambda4 a b c d \<and> gam = gamma4 a b c d))
   \<and> (inBox a \<and> inBox b \<and> inBox c \<and> inBox d \<longrightarrow>
        (\<bar>det4 a b c d\<bar> \<le> 0.001 - 1 / 10 ^ 11 \<longrightarrow> \<not> doIntersect a b c d)
        \<and> (0.001 + 1 / 10 ^ 11 \<le> \<bar>det4 a b c d\<bar>
             \<and> 0.05 + 1 / 10 ^ 8 \<le> lambda4 a b c d \<and> lambda4 a b c d \<le> 0.95 - 1 / 10 ^ 8
             \<and> 0.05 + 1 / 10 ^ 8 \<le> gamma4 a b c d \<and> gamma4 a b c d \<le> 0.95 - 1 / 10 ^ 8
             \<longrightarrow> doIntersect a b c d)
        \<and> (doIntersect a b c d \<longrightarrow>
             0.001 - 1 / 10 ^ 11 < \<bar>det4 a b c d\<bar>
             \<and> 0.05 - 1 / 10 ^ 8 < lambda4 a b c d \<and> lambda4 a b c d < 0.95 + 1 / 10 ^ 8
             \<and> 0.05 - 1 / 10 ^ 8 < gamma4 a b c d \<and> gamma4 a b c d < 0.95 + 1 / 10 ^ 8))"
proof -
  have 1: "dless (dabs (detD a b c d)) (toDouble 0.001) \<longrightarrow> \<not> doIntersect a b c d"
    unfolding doIntersect_computed by simp
  have 2: "\<not> dless (dabs (detD a b c d)) (toDouble 0.001) \<longrightarrow>
        (doIntersect a b c d \<longleftrightarrow>
           (dless (toDouble 0.05) (lambdaD a b c d)
              \<and> dless (lambdaD a b c d) (dsub (Finite 1) (toDouble 0.05)))
           \<and> (dless (toDouble 0.05) (gammaD a b c d)
              \<and> dless (gammaD a b c d) (dsub (Finite 1) (toDouble 0.05))))"
    unfolding doIntersect_computed by simp
  have 3: "det4 a b c d \<noteq> 0 \<longrightarrow>
        (\<forall>lam gam. solves a b c d lam gam
            \<longleftrightarrow> lam = lambda4 a b c d \<and> gam = gamma4 a b c d)"
    using solves_unique solves_params by blast
  have 4: "inBox a \<and> inBox b \<and> inBox c \<and> inBox d \<longrightarrow>
        (\<bar>det4 a b c d\<bar> \<le> 0.001 - 1 / 10 ^ 11 \<longrightarrow> \<not> doIntersect a b c d)
        \<and> (0.001 + 1 / 10 ^ 11 \<le> \<bar>det4 a b c d\<bar>
             \<and> 0.05 + 1 / 10 ^ 8 \<le> lambda4 a b c d \<and> lambda4 a b c d \<le> 0.95 - 1 / 10 ^ 8
             \<and> 0.05 + 1 / 10 ^ 8 \<le> gamma4 a b c d \<and> gamma4 a b c d \<le> 0.95 - 1 / 10 ^ 8
             \<longrightarrow> doIntersect a b c d)
        \<and> (doIntersect a b c d \<longrightarrow>
             0.001 - 1 / 10 ^ 11 < \<bar>det4 a b c d\<bar>
             \<and> 0.05 - 1 / 10 ^ 8 < lambda4 a b c d \<and> lambda4 a b c d < 0.95 + 1 / 10 ^ 8
             \<and> 0.05 - 1 / 10 ^ 8 < gamma4 a b c d \<and> gamma4 a b c d < 0.95 + 1 / 10 ^ 8)"
  proof (intro impI conjI)
    assume "inBox a \<and> inBox b \<and> inBox c \<and> inBox d"
    then have box: "inBox a" "inBox b" "inBox c" "inBox d" by simp_all
    {
      assume "\<bar>det4 a b c d\<bar> \<le> 0.001 - 1 / 10 ^ 11"
      with box show "\<not> doIntersect a b c d" by (rule doIntersect_near_parallel)
    }
    {
      assume "0.001 + 1 / 10 ^ 11 \<le> \<bar>det4 a b c d\<bar>
             \<and> 0.05 + 1 / 10 ^ 8 \<le> lambda4 a b c d \<and> lambda4 a b c d \<le> 0.95 - 1 / 10 ^ 8
             \<and> 0.05 + 1 / 10 ^ 8 \<le> gamma4 a b c d \<and> gamma4 a b c d \<le> 0.95 - 1 / 10 ^ 8"
      then have "0.001 + 1 / 10 ^ 11 \<le> \<bar>det4 a b c d\<bar>"
        "0.05 + 1 / 10 ^ 8 \<le> lambda4 a b c d" "lambda4 a b c d \<le> 0.95 - 1 / 10 ^ 8"
        "0.05 + 1 / 10 ^ 8 \<le> gamma4 a b c d" "gamma4 a b c d \<le> 0.95 - 1 / 10 ^ 8"
        by blast+
      with box show "doIntersect a b c d" by (rule doIntersect_inside)
    }
    {
      assume t: "doIntersect a b c d"
      from doIntersect_outside[OF box t]
      show "0.001 - 1 / 10 ^ 11 < \<bar>det4 a b c d\<bar>"
        and "0.05 - 1 / 10 ^ 8 < lambda4 a b c d" and "lambda4 a b c d < 0.95 + 1 / 10 ^ 8"
        and "0.05 - 1 / 10 ^ 8 < gamma4 a b c d" and "gamma4 a b c d < 0.95 + 1 / 10 ^ 8" .
    }
  qed
  from 1 2 3 4 show ?thesis by (intro conjI)
qed

theorem doIntersect_determinant_and_parameters_witness:
  "dless (dabs (detD (vec 0 0) (vec 4 0) (vec 0 1) (vec 4 1))) (toDouble 0.001)
   \<and> \<not> doIntersect (vec 0 0) (vec 4 0) (vec 0 1) (vec 4 1)
   \<and> inBox (vec 0 0) \<and> inBox (vec 4 4) \<and> inBox (vec 4 0) \<and> inBox (vec 0 4)
   \<and> det4 (vec 0 0) (vec 4 4) (vec 4 0) (vec 0 4) = 32
   \<and> lambda4 (vec 0 0) (vec 4 4) (vec 4 0) (vec 0 4) = 1 / 2
   \<and> gamma4 (vec 0 0) (vec 4 4) (vec 4 0) (vec 0 4) = 1 / 2
   \<and> solves (vec 0 0) (vec 4 4) (vec 4 0) (vec 0 4) (1 / 2) (1 / 2)
   \<and> doIntersect (vec 0 0) (vec 4 4) (vec 4 0) (vec 0 4)
   \<and> inBox (vec 1 1)
   \<and> lambda4 (vec 0 0) (vec 1 1) (vec 4 0) (vec 0 4) = 2
   \<and> \<not> doIntersect (vec 0 0) (vec 1 1) (vec 4 0) (vec 0 4)"
proof -
  note b = diagonals_inBox(1-5)
  note e = diagonals_exact(1-3,5)
  have p: "dless (dabs (detD (vec 0 0) (vec 4 0) (vec 0 1) (vec 4 1))) (toDouble 0.001)"
    unfolding diagonals_test(4) threshold_doubles(1) by simp
  from doIntersect_determinant_and_parameters
         [of "vec 0 0" "vec 4 0" "vec 0 1" "vec 4 1", THEN conjunct1] p
  have 1: "\<not> doIntersect (vec 0 0) (vec 4 0) (vec 0 1) (vec 4 1)" by (rule mp)
  note th = doIntersect_determinant_and_parameters
         [of "vec 0 0" "vec 4 4" "vec 4 0" "vec 0 4"]
  have nz: "det4 (vec 0 0) (vec 4 4) (vec 4 0) (vec 0 4) \<noteq> 0" by (simp add: e)
  from th [THEN conjunct2, THEN conjunct2, THEN conjunct1] nz
  have "solves (vec 0 0) (vec 4 4) (vec 4 0) (vec 0 4)
          (lambda4 (vec 0 0) (vec 4 4) (vec 4 0) (vec 0 4))
          (gamma4 (vec 0 0) (vec 4 4) (vec 4 0) (vec 0 4))" by blast
  then have 2: "solves (vec 0 0) (vec 4 4) (vec 4 0) (vec 0 4) (1 / 2) (1 / 2)"
    unfolding e .
  have "0.001 + 1 / 10 ^ 11 \<le> \<bar>det4 (vec 0 0) (vec 4 4) (vec 4 0) (vec 0 4)\<bar>
        \<and> 0.05 + 1 / 10 ^ 8 \<le> lambda4 (vec 0 0) (vec 4 4) (vec 4 0) (vec 0 4)
        \<and> lambda4 (vec 0 0) (vec 4 4) (vec 4 0) (vec 0 4) \<le> 0.95 - 1 / 10 ^ 8
        \<and> 0.05 + 1 / 10 ^ 8 \<le> gamma4 (vec 0 0) (vec 4 4) (vec 4 0) (vec 0 4)
        \<and> gamma4 (vec 0 0) (vec 4 4) (vec 4 0) (vec 0 4) \<le> 0.95 - 1 / 10 ^ 8"
    unfolding e by simp
  with th [THEN conjunct2, THEN conjunct2, THEN conjunct2] b(1-4)
  have 3: "doIntersect (vec 0 0) (vec 4 4) (vec 4 0) (vec 0 4)" by blast
  have out: "\<not> (lambda4 (vec 0 0) (vec 1 1) (vec 4 0) (vec 0 4) < 0.95 + 1 / 10 ^ 8)"
    unfolding e by simp
  with doIntersect_determinant_and_parameters
         [of "vec 0 0" "vec 1 1" "vec 4 0" "vec 0 4", THEN conjunct2, THEN conjunct2,
          THEN conjunct2] b
  have 4: "\<not> doIntersect (vec 0 0) (vec 1 1) (vec 4 0) (vec 0 4)" by blast
  show ?thesis
    by (intro conjI) (fact p 1 b e 2 3 4)+
qed

text \<open>
  C1. An evaluation for the win (\<^verbatim>\<open>checkWinCondition\<close> on an initialised level that
  is not yet complete) reports solved, that is, sets \<^verbatim>\<open>isComplete\<close>, if and only if
  the level has at least one rope and no rope is marked tangled. An empty rope map is
  never reported as solved, although \<^verbatim>\<open>checkIntersections\<close> alone returns true on
  it. The mark of a rope is its membership in \<^verbatim>\<open>tangledIds\<close>; when every rope has
  its two pins, this is also the colour flag the evaluation leaves on the rope.
\<close>

theorem solved_iff_ropes_and_none_tangled:
  assumes "initialized s" and "\<not> isComplete s"
  shows "(isComplete (checkWinCondition s) \<longleftrightarrow>
            ropes_s s \<noteq> [] \<and> (\<forall>k \<in> set (map fst (ropes_s s)). k \<notin> tangledIdsOf s))
       \<and> (ropes_s s = [] \<longrightarrow> \<not> isComplete (checkWinCondition s))
       \<and> (pinsPresent s \<and> distinct (map fst (ropes_s s)) \<longrightarrow>
            (isComplete (checkWinCondition s) \<longleftrightarrow>
               ropes_s (checkWinCondition s) \<noteq> []
               \<and> (\<forall>kr \<in> set (ropes_s (checkWinCondition s)). \<not> tangled (snd kr))))"
proof -
  define s' where "s' = fst (checkIntersections s)"
  have main: "isComplete (checkWinCondition s) \<longleftrightarrow> ropes_s s \<noteq> [] \<and> tangledIdsOf s = {}"
    using assms by (rule checkWinCondition_solved)
  have sub: "tangledIdsOf s \<subseteq> set (map fst (ropes_s s))" by (rule tangledIdsOf_keys)
  have none: "(\<forall>k \<in> set (map fst (ropes_s s)). k \<notin> tangledIdsOf s) \<longleftrightarrow> tangledIdsOf s = {}"
    using sub by blast
  have keys: "map fst (ropes_s s') = map fst (ropes_s s)"
    unfolding s'_def by (rule checkIntersections_keys)
  have rs: "ropes_s (checkWinCondition s) = ropes_s s'"
    using assms unfolding checkWinCondition_def Let_def s'_def by simp
  have flags: "(\<forall>kr \<in> set (ropes_s s'). \<not> tangled (snd kr)) \<longleftrightarrow> tangledIdsOf s = {}"
    if pp: "pinsPresent s" and d: "distinct (map fst (ropes_s s))"
  proof
    assume clear: "\<forall>kr \<in> set (ropes_s s'). \<not> tangled (snd kr)"
    have "k \<notin> tangledIdsOf s" if "k \<in> set (map fst (ropes_s s))" for k
    proof -
      from that keys obtain r where kr: "(k, r) \<in> set (ropes_s s')"
        by (metis (no_types, opaque_lifting) fst_conv imageE prod.collapse set_map)
      with clear have "\<not> tangled r" by auto
      moreover from checkIntersections_flags[OF pp d kr[unfolded s'_def]]
      have "tangled r = (k \<in> tangledIdsOf s)" .
      ultimately show ?thesis by simp
    qed
    with sub show "tangledIdsOf s = {}" by blast
  next
    assume e: "tangledIdsOf s = {}"
    show "\<forall>kr \<in> set (ropes_s s'). \<not> tangled (snd kr)"
    proof
      fix kr assume "kr \<in> set (ropes_s s')"
      then have "(fst kr, snd kr) \<in> set (ropes_s (fst (checkIntersections s)))"
        by (simp add: s'_def)
      from checkIntersections_flags[OF pp d this] e show "\<not> tangled (snd kr)" by simp
    qed
  qed
  have e: "ropes_s s' = [] \<longleftrightarrow> ropes_s s = []" using keys by (metis map_is_Nil_conv)
  have c1: "isComplete (checkWinCondition s) \<longleftrightarrow>
            ropes_s s \<noteq> [] \<and> (\<forall>k \<in> set (map fst (ropes_s s)). k \<notin> tangledIdsOf s)"
    unfolding main none ..
  have c2: "ropes_s s = [] \<longrightarrow> \<not> isComplete (checkWinCondition s)"
    unfolding main by simp
  have c3: "pinsPresent s \<and> distinct (map fst (ropes_s s)) \<longrightarrow>
            (isComplete (checkWinCondition s) \<longleftrightarrow>
               ropes_s (checkWinCondition s) \<noteq> []
               \<and> (\<forall>kr \<in> set (ropes_s (checkWinCondition s)). \<not> tangled (snd kr)))"
  proof
    assume "pinsPresent s \<and> distinct (map fst (ropes_s s))"
    then have "(\<forall>kr \<in> set (ropes_s s'). \<not> tangled (snd kr)) \<longleftrightarrow> tangledIdsOf s = {}"
      using flags by blast
    then show "isComplete (checkWinCondition s) \<longleftrightarrow>
               ropes_s (checkWinCondition s) \<noteq> []
               \<and> (\<forall>kr \<in> set (ropes_s (checkWinCondition s)). \<not> tangled (snd kr))"
      unfolding rs main e by simp
  qed
  from c1 c2 c3 show ?thesis by (intro conjI)
qed

theorem solved_iff_ropes_and_none_tangled_witness:
  "initialized squareScene \<and> \<not> isComplete squareScene
   \<and> tangledIdsOf squareScene = {''r0'', ''r1''}
   \<and> \<not> isComplete (checkWinCondition squareScene)
   \<and> initialized draggedScene \<and> \<not> isComplete draggedScene
   \<and> pinsPresent draggedScene \<and> distinct (map fst (ropes_s draggedScene))
   \<and> ropes_s draggedScene \<noteq> [] \<and> tangledIdsOf draggedScene = {}
   \<and> isComplete (checkWinCondition draggedScene)
   \<and> list_all (\<lambda>kr. \<not> tangled (snd kr)) (ropes_s (checkWinCondition draggedScene))
   \<and> initialized (emptyState\<lparr>initialized := True\<rparr>)
   \<and> ropes_s (emptyState\<lparr>initialized := True\<rparr>) = []
   \<and> snd (checkIntersections (emptyState\<lparr>initialized := True\<rparr>))
   \<and> \<not> isComplete (checkWinCondition (emptyState\<lparr>initialized := True\<rparr>))"
proof -
  have a: "initialized squareScene" "\<not> isComplete squareScene"
    by (simp_all add: squareScene_value)
  have b: "initialized draggedScene" "\<not> isComplete draggedScene"
    "ropes_s draggedScene \<noteq> []" "distinct (map fst (ropes_s draggedScene))"
    by (simp_all add: draggedScene_value)
  have pp: "pinsPresent draggedScene"
    by (simp add: pinsPresent_def draggedScene_value)
  have c: "initialized (emptyState\<lparr>initialized := True\<rparr>)"
    "\<not> isComplete (emptyState\<lparr>initialized := True\<rparr>)"
    "ropes_s (emptyState\<lparr>initialized := True\<rparr>) = []"
    "snd (checkIntersections (emptyState\<lparr>initialized := True\<rparr>))"
    by (simp_all add: emptyState_def checkIntersections_def tangledIdsOf_def)
  note t1 = squareScene_tangled and t2 = draggedScene_tangled
  have "''r0'' \<in> set (map fst (ropes_s squareScene))" by (simp add: squareScene_value)
  moreover have "''r0'' \<in> tangledIdsOf squareScene" by (simp add: t1)
  ultimately have "\<not> (\<forall>k \<in> set (map fst (ropes_s squareScene)). k \<notin> tangledIdsOf squareScene)"
    by blast
  with solved_iff_ropes_and_none_tangled [OF a, THEN conjunct1]
  have 1: "\<not> isComplete (checkWinCondition squareScene)" by simp
  from solved_iff_ropes_and_none_tangled [OF b(1,2), THEN conjunct1] t2 b(3)
  have 2: "isComplete (checkWinCondition draggedScene)" by simp
  from solved_iff_ropes_and_none_tangled [OF b(1,2), THEN conjunct2, THEN conjunct2] pp b(4) 2
  have 3: "\<forall>kr \<in> set (ropes_s (checkWinCondition draggedScene)). \<not> tangled (snd kr)"
    by simp
  from 3 have clear:
    "list_all (\<lambda>kr. \<not> tangled (snd kr)) (ropes_s (checkWinCondition draggedScene))"
    by (simp add: list_all_iff)
  from solved_iff_ropes_and_none_tangled [OF c(1,2), THEN conjunct2, THEN conjunct1] c(3)
  have 4: "\<not> isComplete (checkWinCondition (emptyState\<lparr>initialized := True\<rparr>))" by simp
  show ?thesis
    by (intro conjI) (fact a b pp c t1 t2 1 2 clear 4)+
qed

text \<open>
  C3. Two ropes that share a pin id are never marked as a tangled pair, wherever the
  pins are placed: the loop body leaves the set of tangled ids as it is for such a pair.
  A rope is marked tangled only through a pair of ropes that share no pin id, whose four
  pins exist and whose segments pass the intersection test; and that test reads only the
  x and y coordinates.
\<close>

theorem adjacent_ropes_never_tangled:
  "(map_of (ropes_s s) ki = Some r1 \<and> map_of (ropes_s s) kj = Some r2 \<and> sharesEndpoint r1 r2
      \<longrightarrow> (\<forall>placement. pairStep (s\<lparr>pins := placement\<rparr>) ki kj t = t))
   \<and> (k \<in> tangledIdsOf s \<longrightarrow>
        (\<exists>ki kj r1 r2 a b c d.
           (k = ki \<or> k = kj)
           \<and> map_of (ropes_s s) ki = Some r1 \<and> map_of (ropes_s s) kj = Some r2
           \<and> \<not> sharesEndpoint r1 r2
           \<and> pins s (p1 r1) = Some a \<and> pins s (p2 r1) = Some b
           \<and> pins s (p1 r2) = Some c \<and> pins s (p2 r2) = Some d
           \<and> doIntersect a b c d))
   \<and> doIntersect (a\<lparr>vz := z1\<rparr>) (b\<lparr>vz := z2\<rparr>) (c\<lparr>vz := z3\<rparr>) (d\<lparr>vz := z4\<rparr>)
       = doIntersect a b c d"
proof (intro conjI impI allI)
  fix placement
  assume "map_of (ropes_s s) ki = Some r1 \<and> map_of (ropes_s s) kj = Some r2
            \<and> sharesEndpoint r1 r2"
  then show "pairStep (s\<lparr>pins := placement\<rparr>) ki kj t = t"
    using pairStep_adjacent [of s ki r1 kj r2 placement t] by blast
next
  assume "k \<in> tangledIdsOf s"
  from tangledIdsOf_mem[OF this] obtain ki kj where
    "crosses s ki kj" "k = ki \<or> k = kj" by blast
  then show "\<exists>ki kj r1 r2 a b c d.
           (k = ki \<or> k = kj)
           \<and> map_of (ropes_s s) ki = Some r1 \<and> map_of (ropes_s s) kj = Some r2
           \<and> \<not> sharesEndpoint r1 r2
           \<and> pins s (p1 r1) = Some a \<and> pins s (p2 r1) = Some b
           \<and> pins s (p1 r2) = Some c \<and> pins s (p2 r2) = Some d
           \<and> doIntersect a b c d"
    unfolding crosses_def by blast
next
  show "doIntersect (a\<lparr>vz := z1\<rparr>) (b\<lparr>vz := z2\<rparr>) (c\<lparr>vz := z3\<rparr>) (d\<lparr>vz := z4\<rparr>)
       = doIntersect a b c d"
    by (rule doIntersect_z)
qed

theorem adjacent_ropes_never_tangled_witness:
  "map_of (ropes_s squareScene) ''r0'' = Some \<lparr>p1 = ''p0'', p2 = ''p2'', tangled = True\<rparr>
   \<and> map_of (ropes_s squareScene) ''r2'' = Some \<lparr>p1 = ''p0'', p2 = ''p1'', tangled = False\<rparr>
   \<and> sharesEndpoint \<lparr>p1 = ''p0'', p2 = ''p2'', tangled = True\<rparr>
                     \<lparr>p1 = ''p0'', p2 = ''p1'', tangled = False\<rparr>
   \<and> pairStep (squareScene\<lparr>pins := [''p0'' \<mapsto> vec 0 0, ''p2'' \<mapsto> vec 4 4,
                                     ''p1'' \<mapsto> vec 4 0]\<rparr>) ''r0'' ''r2'' {} = {}
   \<and> ''r0'' \<in> tangledIdsOf squareScene
   \<and> (\<exists>ki kj r1 r2 a b c d.
         (''r0'' = ki \<or> ''r0'' = kj)
         \<and> map_of (ropes_s squareScene) ki = Some r1
         \<and> map_of (ropes_s squareScene) kj = Some r2
         \<and> \<not> sharesEndpoint r1 r2
         \<and> pins squareScene (p1 r1) = Some a \<and> pins squareScene (p2 r1) = Some b
         \<and> pins squareScene (p1 r2) = Some c \<and> pins squareScene (p2 r2) = Some d
         \<and> doIntersect a b c d)
   \<and> ''r2'' \<notin> tangledIdsOf squareScene"
proof -
  have l: "map_of (ropes_s squareScene) ''r0''
             = Some \<lparr>p1 = ''p0'', p2 = ''p2'', tangled = True\<rparr>"
    "map_of (ropes_s squareScene) ''r2''
             = Some \<lparr>p1 = ''p0'', p2 = ''p1'', tangled = False\<rparr>"
    by (simp_all add: squareScene_value)
  have sh: "sharesEndpoint \<lparr>p1 = ''p0'', p2 = ''p2'', tangled = True\<rparr>
                     \<lparr>p1 = ''p0'', p2 = ''p1'', tangled = False\<rparr>"
    by (simp add: sharesEndpoint_def)
  have m: "''r0'' \<in> tangledIdsOf squareScene" "''r2'' \<notin> tangledIdsOf squareScene"
    by (simp_all add: squareScene_tangled)
  note th = adjacent_ropes_never_tangled
    [where s = squareScene and ki = "''r0''" and kj = "''r2''" and t = "{}" and k = "''r0''"
       and ?r1.0 = "\<lparr>p1 = ''p0'', p2 = ''p2'', tangled = True\<rparr>"
       and ?r2.0 = "\<lparr>p1 = ''p0'', p2 = ''p1'', tangled = False\<rparr>"]
  from th [THEN conjunct1] l sh
  have "\<forall>placement. pairStep (squareScene\<lparr>pins := placement\<rparr>) ''r0'' ''r2'' {} = {}"
    by simp
  then have 1: "pairStep (squareScene\<lparr>pins := [''p0'' \<mapsto> vec 0 0, ''p2'' \<mapsto> vec 4 4,
                                     ''p1'' \<mapsto> vec 4 0]\<rparr>) ''r0'' ''r2'' {} = {}"
    by (rule spec)
  from th [THEN conjunct2, THEN conjunct1] m(1)
  have 2: "\<exists>ki kj r1 r2 a b c d.
         (''r0'' = ki \<or> ''r0'' = kj)
         \<and> map_of (ropes_s squareScene) ki = Some r1
         \<and> map_of (ropes_s squareScene) kj = Some r2
         \<and> \<not> sharesEndpoint r1 r2
         \<and> pins squareScene (p1 r1) = Some a \<and> pins squareScene (p2 r1) = Some b
         \<and> pins squareScene (p1 r2) = Some c \<and> pins squareScene (p2 r2) = Some d
         \<and> doIntersect a b c d"
    by (rule mp)
  show ?thesis
    by (intro conjI) (fact l sh m 1 2)+
qed

text \<open>
  C9. Once a level instance is solved (\<^verbatim>\<open>isComplete\<close> is set by the first evaluation
  for the win that reports solved), every later pointer-move and pointer-down request
  returns without any effect, and no sequence of pointer events changes a pin position,
  a rope or the solved flag again: the instance never returns to the unsolved state.
\<close>

theorem solved_is_terminal:
  assumes "isComplete s"
  shows "onPointerMove hit s = s
       \<and> onPointerDown target hit' s = s
       \<and> isComplete (run es s)
       \<and> pins (run es s) = pins s
       \<and> ropes_s (run es s) = ropes_s s"
proof -
  have "onPointerMove hit s = s" using assms by (simp add: onPointerMove_def)
  moreover have "onPointerDown target hit' s = s" using assms by (simp add: onPointerDown_def)
  moreover note run_complete[OF assms, of es]
  ultimately show ?thesis by blast
qed

theorem solved_is_terminal_witness:
  "\<not> isComplete draggedScene
   \<and> solvedScene = checkWinCondition (draggedScene\<lparr>selectedPointId := None\<rparr>)
   \<and> isComplete solvedScene
   \<and> onPointerMove (Some (vec 3 3)) solvedScene = solvedScene
   \<and> isComplete (run [PointerDown (Some ''p2'') (Some (vec 1 1)),
                       PointerMove (Some (vec 3 3)), PointerUp] solvedScene)
   \<and> pins (run [PointerDown (Some ''p2'') (Some (vec 1 1)),
                 PointerMove (Some (vec 3 3)), PointerUp] solvedScene) ''p2''
       = Some (vec 1 1)
   \<and> pins (run [PointerDown (Some ''p2'') (Some (vec 1 1)),
                 PointerMove (Some (vec 3 3)), PointerUp] draggedScene) ''p2''
       = Some (vec 3 3)"
proof -
  have a: "\<not> isComplete draggedScene" by (simp add: draggedScene_value)
  have b: "solvedScene = checkWinCondition (draggedScene\<lparr>selectedPointId := None\<rparr>)"
    by (simp add: solvedScene_def run_def onPointerUp_def falsy_def draggedScene_value)
  have c: "isComplete solvedScene" by (simp add: solvedScene_value)
  have p: "pins solvedScene ''p2'' = Some (vec 1 1)"
    by (simp add: solvedScene_value draggedScene_value vec_def)
  have d: "pins (run [PointerDown (Some ''p2'') (Some (vec 1 1)),
                 PointerMove (Some (vec 3 3)), PointerUp] draggedScene) ''p2''
       = Some (vec 3 3)"
    unfolding draggedScene_value by (simp add: scene_unfold)
  from solved_is_terminal [OF c, of "Some (vec 3 3)" None None
      "[PointerDown (Some ''p2'') (Some (vec 1 1)), PointerMove (Some (vec 3 3)), PointerUp]"]
    a b c p d
  show ?thesis by simp
qed

text \<open>Values of the generator at the concrete inputs used below.\<close>

lemma pointCount_values:
  "pointCount 0 = 5" "pointCount 1 = 5" "pointCount 9 = 5" "pointCount 10 = 6"
  "pointCount 25 = 7" "pointCount 1000 = 15" "pointCount (- 7) = 4" "pointCount (- 100) = - 5"
  by (simp_all add: pointCount_def)



lemma level1_ropes:
  "snd (allRopes sampleRandom 1) =
     [\<lparr>id_r = ''r0'', p1_r = ''p0'', p2_r = ''p1'', color_r = ''#ffffff''\<rparr>,
      \<lparr>id_r = ''r1'', p1_r = ''p1'', p2_r = ''p2'', color_r = ''#ffffff''\<rparr>,
      \<lparr>id_r = ''r2'', p1_r = ''p2'', p2_r = ''p3'', color_r = ''#ffffff''\<rparr>,
      \<lparr>id_r = ''r3'', p1_r = ''p3'', p2_r = ''p4'', color_r = ''#ffffff''\<rparr>,
      \<lparr>id_r = ''r4'', p1_r = ''p4'', p2_r = ''p0'', color_r = ''#ffffff''\<rparr>,
      \<lparr>id_r = ''r5'', p1_r = ''p0'', p2_r = ''p2'', color_r = ''#ffffff''\<rparr>]"
  by (simp add: generator_unfold upt_rec [of 0] upt_rec [of "Suc _"])

lemma pinIds_upto_5:
  "map (\<lambda>i. pinId (int i)) [0..<5] = [''p0'', ''p1'', ''p2'', ''p3'', ''p4'']"
  by (simp add: pinId_def numStr_def digits.simps digitChar_def
        upt_rec [of 0] upt_rec [of "Suc _"])

lemma level1_generated:
  "\<exists>ld. generateLevel 1 sampleRandom = Inr ld
        \<and> map id_p (points ld) = [''p0'', ''p1'', ''p2'', ''p3'', ''p4'']
        \<and> ropes ld = snd (allRopes sampleRandom 1)"
  using generateLevel_returns [OF validRandom_sample, of 1]
  by (simp add: pointCount_values pinIds_upto_5)

text \<open>
  C4. For every level index of the contract (\<open>lvl \<ge> 1\<close>) and every sequence of random
  draws, the generator returns a level in which all point ids are different, every rope
  joins two different ids of points of the level, and no unordered pair of point ids is
  joined by more than one rope. Duplicates are rejected through the key set: a pair
  whose key, which is the same for both orders of the pair, is already in the set leaves
  the ropes unchanged.
\<close>

theorem generated_level_is_well_formed:
  assumes "1 \<le> lvl" and "validRandom rnd"
  shows "(\<exists>ld. generateLevel lvl rnd = Inr ld
           \<and> distinct (map id_p (points ld))
           \<and> (\<forall>r \<in> set (ropes ld). p1_r r \<noteq> p2_r r
                  \<and> p1_r r \<in> set (map id_p (points ld))
                  \<and> p2_r r \<in> set (map id_p (points ld)))
           \<and> distinct (map (\<lambda>r. {p1_r r, p2_r r}) (ropes ld)))
       \<and> (\<forall>i j st. ropeKey j i \<in> fst st \<longrightarrow> addRope i j st = st)"
proof
  show "\<exists>ld. generateLevel lvl rnd = Inr ld
           \<and> distinct (map id_p (points ld))
           \<and> (\<forall>r \<in> set (ropes ld). p1_r r \<noteq> p2_r r
                  \<and> p1_r r \<in> set (map id_p (points ld))
                  \<and> p2_r r \<in> set (map id_p (points ld)))
           \<and> distinct (map (\<lambda>r. {p1_r r, p2_r r}) (ropes ld))"
    using assms by (rule generateLevel_valid)
next
  show "\<forall>i j st. ropeKey j i \<in> fst st \<longrightarrow> addRope i j st = st"
    using addRope_duplicate ropeKey_commute by metis
qed

theorem generated_level_is_well_formed_witness:
  "(1::int) \<le> 1 \<and> validRandom sampleRandom
   \<and> (\<exists>ld. generateLevel 1 sampleRandom = Inr ld
         \<and> map id_p (points ld) = [''p0'', ''p1'', ''p2'', ''p3'', ''p4'']
         \<and> map (\<lambda>r. (p1_r r, p2_r r)) (ropes ld)
             = [(''p0'', ''p1''), (''p1'', ''p2''), (''p2'', ''p3''), (''p3'', ''p4''),
                (''p4'', ''p0''), (''p0'', ''p2'')]
         \<and> distinct (map id_p (points ld))
         \<and> list_all (\<lambda>r. p1_r r \<noteq> p2_r r \<and> p1_r r \<in> set (map id_p (points ld))
                          \<and> p2_r r \<in> set (map id_p (points ld))) (ropes ld)
         \<and> distinct (map (\<lambda>r. {p1_r r, p2_r r}) (ropes ld)))"
proof -
  have one: "(1::int) \<le> 1" by simp
  from generated_level_is_well_formed [OF one validRandom_sample, THEN conjunct1]
  obtain ld where ld: "generateLevel 1 sampleRandom = Inr ld"
    "distinct (map id_p (points ld))"
    "\<forall>r \<in> set (ropes ld). p1_r r \<noteq> p2_r r \<and> p1_r r \<in> set (map id_p (points ld))
        \<and> p2_r r \<in> set (map id_p (points ld))"
    "distinct (map (\<lambda>r. {p1_r r, p2_r r}) (ropes ld))" by blast
  from level1_generated ld(1)
  have v: "map id_p (points ld) = [''p0'', ''p1'', ''p2'', ''p3'', ''p4'']"
    "ropes ld = snd (allRopes sampleRandom 1)" by auto
  have e: "map (\<lambda>r. (p1_r r, p2_r r)) (ropes ld)
             = [(''p0'', ''p1''), (''p1'', ''p2''), (''p2'', ''p3''), (''p3'', ''p4''),
                (''p4'', ''p0''), (''p0'', ''p2'')]"
    unfolding v(2) level1_ropes by simp
  have a: "list_all (\<lambda>r. p1_r r \<noteq> p2_r r \<and> p1_r r \<in> set (map id_p (points ld))
                          \<and> p2_r r \<in> set (map id_p (points ld))) (ropes ld)"
    using ld(3) by (simp add: list_all_iff)
  show ?thesis
    by (intro conjI exI [of _ ld]) (fact one validRandom_sample ld(1,2,4) v(1) e a)+
qed

text \<open>
  C5. For every level index \<open>lvl \<ge> 1\<close> the generator returns a level whose number of
  points is \<open>min (5 + floor (lvl / 10)) 15\<close>, whatever the random draws are.
\<close>

theorem node_count_formula:
  assumes "1 \<le> lvl" and "validRandom rnd"
  shows "\<exists>ld. generateLevel lvl rnd = Inr ld
            \<and> int (length (points ld)) = min (5 + lvl div 10) 15"
proof -
  from generateLevel_length [OF assms(2), of lvl] obtain ld where
    ld: "generateLevel lvl rnd = Inr ld" "length (points ld) = nat (pointCount lvl)" by blast
  have "0 \<le> pointCount lvl" using pointCount_pos [OF assms(1)] by simp
  with ld(2) have "int (length (points ld)) = pointCount lvl" by simp
  with ld(1) show ?thesis unfolding pointCount_div by blast
qed

theorem node_count_formula_witness:
  "(1::int) \<le> 25 \<and> validRandom sampleRandom
   \<and> (\<exists>ld. generateLevel 25 sampleRandom = Inr ld \<and> length (points ld) = 7)
   \<and> (\<exists>ld. generateLevel 1000 (\<lambda>n. 0) = Inr ld \<and> length (points ld) = 15)"
proof -
  have a: "(1::int) \<le> 25" and b: "(1::int) \<le> 1000" by simp_all
  have z: "validRandom (\<lambda>n. 0)" by (simp add: validRandom_def)
  from node_count_formula [OF a validRandom_sample]
  have 1: "\<exists>ld. generateLevel 25 sampleRandom = Inr ld \<and> length (points ld) = 7"
    by simp
  from node_count_formula [OF b z]
  have 2: "\<exists>ld. generateLevel 1000 (\<lambda>n. 0) = Inr ld \<and> length (points ld) = 15"
    by simp
  from a validRandom_sample 1 2 show ?thesis by blast
qed

text \<open>
  C6. Difficulty is monotone: for level indices \<open>lvl1 < lvl2\<close> the node count and the
  scramble count that the generator uses at \<open>lvl2\<close> are not smaller than those at
  \<open>lvl1\<close>, and the level generated at \<open>lvl2\<close> has at least as many points.
\<close>

theorem difficulty_is_monotone:
  assumes "lvl1 < lvl2" and "validRandom rnd1" and "validRandom rnd2"
  shows "pointCount lvl1 \<le> pointCount lvl2
       \<and> scrambleCount lvl1 \<le> scrambleCount lvl2
       \<and> (\<exists>ld1 ld2. generateLevel lvl1 rnd1 = Inr ld1 \<and> generateLevel lvl2 rnd2 = Inr ld2
              \<and> length (points ld1) \<le> length (points ld2))"
proof -
  have le: "lvl1 \<le> lvl2" using assms(1) by simp
  have pc: "pointCount lvl1 \<le> pointCount lvl2" using le by (rule pointCount_mono)
  have sc: "scrambleCount lvl1 \<le> scrambleCount lvl2" using le by (rule scrambleCount_mono)
  from generateLevel_length [OF assms(2), of lvl1] obtain ld1 where
    1: "generateLevel lvl1 rnd1 = Inr ld1" "length (points ld1) = nat (pointCount lvl1)"
    by blast
  from generateLevel_length [OF assms(3), of lvl2] obtain ld2 where
    2: "generateLevel lvl2 rnd2 = Inr ld2" "length (points ld2) = nat (pointCount lvl2)"
    by blast
  have "length (points ld1) \<le> length (points ld2)" using pc 1(2) 2(2) by simp
  with 1(1) 2(1) pc sc show ?thesis by blast
qed

theorem difficulty_is_monotone_witness:
  "(9::int) < 10 \<and> validRandom sampleRandom
   \<and> pointCount 9 = 5 \<and> pointCount 10 = 6 \<and> pointCount 9 \<le> pointCount 10
   \<and> scrambleCount 9 = 38 \<and> scrambleCount 10 = 40 \<and> scrambleCount 9 \<le> scrambleCount 10
   \<and> (\<exists>ld1 ld2. generateLevel 9 sampleRandom = Inr ld1
          \<and> generateLevel 10 sampleRandom = Inr ld2
          \<and> length (points ld1) \<le> length (points ld2))"
proof -
  have a: "(9::int) < 10" by simp
  have v: "pointCount 9 = 5" "pointCount 10 = 6" "scrambleCount 9 = 38" "scrambleCount 10 = 40"
    by (simp_all add: pointCount_values scrambleCount_def)
  note th = difficulty_is_monotone [OF a validRandom_sample validRandom_sample]
  show ?thesis
    by (intro conjI) (fact a validRandom_sample v th [THEN conjunct1]
        th [THEN conjunct2, THEN conjunct1] th [THEN conjunct2, THEN conjunct2])+
qed



















text \<open>
  C8, as the specification states it: a non-positive level index is rejected with an
  error. The generator has no such check: at level index 0 it returns a level with five
  points, and at level index -100 it returns a level as well.
\<close>

theorem nonpositive_level_accepted_counterexample:
  "\<not> isl (generateLevel 0 sampleRandom)
   \<and> length (points (projr (generateLevel 0 sampleRandom))) = 5
   \<and> \<not> isl (generateLevel (- 100) sampleRandom)
   \<and> points (projr (generateLevel (- 100) sampleRandom)) = []"
proof -
  from generateLevel_length [OF validRandom_sample, of 0] obtain ld where
    a: "generateLevel 0 sampleRandom = Inr ld" "length (points ld) = 5"
    by (auto simp: pointCount_values)
  from generateLevel_length [OF validRandom_sample, of "- 100"] obtain ld' where
    b: "generateLevel (- 100) sampleRandom = Inr ld'" "points ld' = []"
    by (auto simp: pointCount_values)
  show ?thesis unfolding a(1) b(1) using a(2) b(2) by simp
qed

text \<open>
  C8, amended. For every non-positive integer level index the generator reports no
  error and does not reject the call: it returns a level computed by the same formulas
  as for a positive index, with \<open>max 0 (min (5 + floor (lvl / 10)) 15)\<close> points.
\<close>

theorem nonpositive_level_not_rejected:
  assumes "lvl \<le> 0" and "validRandom rnd"
  shows "\<exists>ld. generateLevel lvl rnd = Inr ld
            \<and> int (length (points ld)) = max 0 (min (5 + lvl div 10) 15)"
proof -
  from generateLevel_length [OF assms(2), of lvl] obtain ld where
    ld: "generateLevel lvl rnd = Inr ld" "length (points ld) = nat (pointCount lvl)" by blast
  from ld(2) have "int (length (points ld)) = max 0 (pointCount lvl)" by simp
  with ld(1) show ?thesis unfolding pointCount_div by blast
qed

theorem nonpositive_level_not_rejected_witness:
  "(0::int) \<le> 0 \<and> (- 7::int) \<le> 0 \<and> validRandom sampleRandom
   \<and> (\<exists>ld. generateLevel 0 sampleRandom = Inr ld \<and> length (points ld) = 5)
   \<and> (\<exists>ld. generateLevel (- 7) sampleRandom = Inr ld \<and> length (points ld) = 4)"
proof -
  have a: "(0::int) \<le> 0" and b: "(- 7::int) \<le> 0" by simp_all
  from nonpositive_level_not_rejected [OF a validRandom_sample]
  have 1: "\<exists>ld. generateLevel 0 sampleRandom = Inr ld \<and> length (points ld) = 5"
    by simp
  from nonpositive_level_not_rejected [OF b validRandom_sample]
  have 2: "\<exists>ld. generateLevel (- 7) sampleRandom = Inr ld \<and> length (points ld) = 4"
    by simp
  show ?thesis
    by (intro conjI) (fact a b validRandom_sample 1 2)+
qed

end
